theory Spec2Isabelle
  imports Main "HOL-Library.Sublist" "HOL-Library.AList"
begin

section \<open>Python strings\<close>

text \<open>
  A Python \<open>str\<close> is modelled as a HOL \<open>string\<close>; a character stands for one code point
  below 256. \<open>NL\<close> is the line feed.
\<close>

abbreviation NL :: char where
  "NL \<equiv> CHR 0x0A"

text \<open>\<open>s.startswith(pre)\<close>.\<close>

fun startswith :: "string \<Rightarrow> string \<Rightarrow> bool" where
  "startswith s [] = True"
| "startswith [] (p # ps) = False"
| "startswith (c # cs) (p # ps) = (c = p \<and> startswith cs ps)"

text \<open>
  \<open>s.find(sub, start)\<close>: the lowest index \<open>i \<ge> start\<close> at which \<open>sub\<close> occurs in \<open>s\<close>;
  Python's \<open>-1\<close> is \<open>None\<close>. \<open>find_at sub s i\<close> searches \<open>s\<close>, whose first character has
  index \<open>i\<close>.
\<close>

fun find_at :: "string \<Rightarrow> string \<Rightarrow> nat \<Rightarrow> nat option" where
  "find_at sub [] i = (if sub = [] then Some i else None)"
| "find_at sub (c # cs) i = (if startswith (c # cs) sub then Some i else find_at sub cs (Suc i))"

definition py_find :: "string \<Rightarrow> string \<Rightarrow> nat \<Rightarrow> nat option" where
  "py_find s sub start = (if length s < start then None else find_at sub (drop start s) start)"

text \<open>\<open>s.lstrip("\n")\<close>.\<close>

definition lstrip_nl :: "string \<Rightarrow> string" where
  "lstrip_nl s = dropWhile (\<lambda>c. c = NL) s"

section \<open>The file system\<close>

text \<open>
  A path is the list of its components, from the root; the paths handled here are absolute
  and hold no \<open>..\<close>. The file system is a tree: a regular file holds its data and its
  modification time, a directory its modification time and its entries by name, in listing
  order. The tree has no symbolic and no hard links, so two paths name the same file exactly
  when they are equal and \<open>Path.resolve\<close> is the identity. The data of a file is the text
  its bytes decode to as UTF-8, or bytes that do not decode.
\<close>

abbreviation CR :: char where
  "CR \<equiv> CHR 0x0D"

type_synonym path = "string list"

datatype data = Text string | Binary string

datatype node = File data int | Dir int "(string \<times> node) list"

type_synonym fs = node

datatype py_error = FileNotFoundError | NotADirectoryError | IsADirectoryError | FileExistsError
  | UnicodeDecodeError | KeyError | TypeError | AttributeError | ValueError

text \<open>
  \<open>os.stat\<close>: the node a path leads to. A component below a regular file gives
  \<open>NotADirectoryError\<close>, a missing entry \<open>FileNotFoundError\<close>. \<open>Path.exists\<close> is false
  for both.
\<close>

fun st_mtime :: "node \<Rightarrow> int" where
  "st_mtime (File d m) = m"
| "st_mtime (Dir m es) = m"

fun stat :: "fs \<Rightarrow> path \<Rightarrow> py_error + node" where
  "stat n [] = Inr n"
| "stat (File d m) (c # cs) = Inl NotADirectoryError"
| "stat (Dir m es) (c # cs) =
     (case map_of es c of None \<Rightarrow> Inl FileNotFoundError | Some n \<Rightarrow> stat n cs)"

definition path_exists :: "fs \<Rightarrow> path \<Rightarrow> bool" where
  "path_exists fs p = (case stat fs p of Inl e \<Rightarrow> False | Inr n \<Rightarrow> True)"

text \<open>
  Reading in text mode translates the line ends \<open>\r\n\<close> and \<open>\r\<close> to \<open>\n\<close>.
  \<open>Path.read_text(encoding="utf-8")\<close> raises what opening the file raises, and
  \<open>UnicodeDecodeError\<close> on bytes that do not decode.
\<close>

fun universal_newlines :: "string \<Rightarrow> string" where
  "universal_newlines [] = []"
| "universal_newlines [c] = [if c = CR then NL else c]"
| "universal_newlines (c # d # ds) =
     (if c = CR then (if d = NL then NL # universal_newlines ds else NL # universal_newlines (d # ds))
      else c # universal_newlines (d # ds))"

definition read_text :: "fs \<Rightarrow> path \<Rightarrow> py_error + string" where
  "read_text fs p =
     (case stat fs p of
        Inl e \<Rightarrow> Inl e
      | Inr (Dir m es) \<Rightarrow> Inl IsADirectoryError
      | Inr (File (Binary b) m) \<Rightarrow> Inl UnicodeDecodeError
      | Inr (File (Text s) m) \<Rightarrow> Inr (universal_newlines s))"

text \<open>
  \<open>Path.mkdir(parents=True, exist_ok=True)\<close> at time \<open>t\<close>: the missing directories of the
  path are made, each stamped \<open>t\<close>, and so is the directory that receives a new entry. A
  regular file at the path gives \<open>FileExistsError\<close>, one above it \<open>NotADirectoryError\<close>;
  nothing is made then.
\<close>

fun mkdir_p :: "int \<Rightarrow> fs \<Rightarrow> path \<Rightarrow> py_error + fs" where
  "mkdir_p t (Dir m es) [] = Inr (Dir m es)"
| "mkdir_p t (File d m) [] = Inl FileExistsError"
| "mkdir_p t (File d m) (c # cs) = Inl NotADirectoryError"
| "mkdir_p t (Dir m es) (c # cs) =
     (case map_of es c of
        None \<Rightarrow> (case mkdir_p t (Dir t []) cs of
                   Inl e \<Rightarrow> Inl e
                 | Inr n' \<Rightarrow> Inr (Dir t (es @ [(c, n')])))
      | Some n \<Rightarrow> (case mkdir_p t n cs of
                     Inl e \<Rightarrow> Inl e
                   | Inr n' \<Rightarrow> Inr (Dir m (AList.update c n' es))))"

text \<open>
  Opening a path for writing and storing \<open>x\<close> at time \<open>t\<close>, as \<open>Path.write_text\<close> and
  \<open>Path.write_bytes\<close> do: a regular file is replaced, a missing one is made in its
  directory, which is stamped \<open>t\<close> as well. A directory at the path gives
  \<open>IsADirectoryError\<close>, a regular file above it \<open>NotADirectoryError\<close>, a missing directory
  above it \<open>FileNotFoundError\<close>. On a system whose line separator is \<open>\n\<close> the text is
  stored as it is.
\<close>

fun write_file :: "int \<Rightarrow> data \<Rightarrow> fs \<Rightarrow> path \<Rightarrow> py_error + fs" where
  "write_file t x (File d m) [] = Inr (File x t)"
| "write_file t x (Dir m es) [] = Inl IsADirectoryError"
| "write_file t x (File d m) (c # cs) = Inl NotADirectoryError"
| "write_file t x (Dir m es) (c # cs) =
     (case map_of es c of
        None \<Rightarrow> if cs = [] then Inr (Dir t (es @ [(c, File x t)])) else Inl FileNotFoundError
      | Some n \<Rightarrow> (case write_file t x n cs of
                     Inl e \<Rightarrow> Inl e
                   | Inr n' \<Rightarrow> Inr (Dir m (AList.update c n' es))))"

section \<open>Context Synchronizer\<close>

text \<open>\<open>AGENT_CONTEXT_PATHS\<close>, each relative path split at \<open>/\<close>.\<close>

definition AGENT_CONTEXT_PATHS :: "(string \<times> path) list" where
  "AGENT_CONTEXT_PATHS =
    [(''claude'', [''CLAUDE.md'']),
     (''gemini'', [''GEMINI.md'']),
     (''copilot'', [''.github'', ''agents'', ''copilot-instructions.md'']),
     (''cursor-agent'', [''.cursor'', ''rules'', ''specify-rules.mdc'']),
     (''qwen'', [''QWEN.md'']),
     (''opencode'', [''AGENTS.md'']),
     (''codex'', [''AGENTS.md'']),
     (''windsurf'', [''.windsurf'', ''rules'', ''specify-rules.md'']),
     (''kilocode'', [''.kilocode'', ''rules'', ''specify-rules.md'']),
     (''auggie'', [''.augment'', ''rules'', ''specify-rules.md'']),
     (''codebuddy'', [''CODEBUDDY.md'']),
     (''qoder'', [''QODER.md'']),
     (''roo'', [''.roo'', ''rules'', ''specify-rules.md'']),
     (''q'', [''AGENTS.md'']),
     (''amp'', [''AGENTS.md'']),
     (''shai'', [''SHAI.md'']),
     (''bob'', [''AGENTS.md''])]"

text \<open>
  The context path of an agent under the project root: \<open>AGENT_CONTEXT_PATHS.get(agent_key)\<close>,
  skipped when missing or empty, joined to \<open>project_path\<close>.
\<close>

definition context_path :: "path \<Rightarrow> string \<Rightarrow> path option" where
  "context_path project_path agent_key =
     (case map_of AGENT_CONTEXT_PATHS agent_key of
        None \<Rightarrow> None
      | Some rel_path \<Rightarrow> if rel_path = [] then None else Some (project_path @ rel_path))"

definition extract_markdown_body :: "string \<Rightarrow> string" where
  "extract_markdown_body content' =
     (if startswith content' ''---'' then
        (case py_find content' ''---'' 3 of
           Some end_idx \<Rightarrow> lstrip_nl (drop (end_idx + 3) content')
         | None \<Rightarrow> content')
      else content')"

definition format_context_for_agent :: "string \<Rightarrow> string \<Rightarrow> string" where
  "format_context_for_agent agent_key body =
     (if agent_key = ''cursor-agent''
      then ''---'' @ [NL] @ ''description: SpecForge project context'' @ [NL] @ ''globs: '' @ [NL]
           @ ''---'' @ [NL, NL] @ body
      else body)"

text \<open>
  The state threaded through an operation: the file system, and the trace of the paths
  written so far by the operation, oldest first. \<open>now k\<close> is the clock reading when the
  operation makes its \<open>k\<close>-th write, counted from zero.
\<close>

record world =
  files :: fs
  wlog :: "path list"

text \<open>
  The first loop of \<open>sync_context_files\<close>: \<open>context_files\<close> maps an agent to the path and
  modification time of its existing context file, \<open>seen_paths\<close> maps a resolved path to the
  first agent that uses it. Both are Python dicts, kept in insertion order. A directory
  exists as well as a file does, and has a modification time.
\<close>

fun collect_context_files ::
  "fs \<Rightarrow> path \<Rightarrow> string list \<Rightarrow> (path \<times> string) list \<Rightarrow> (string \<times> path \<times> int) list
     \<Rightarrow> (string \<times> path \<times> int) list" where
  "collect_context_files fs project_path [] seen_paths context_files = context_files"
| "collect_context_files fs project_path (agent_key # rest) seen_paths context_files =
     (case context_path project_path agent_key of
        None \<Rightarrow> collect_context_files fs project_path rest seen_paths context_files
      | Some full_path \<Rightarrow>
          (case stat fs full_path of
             Inl e \<Rightarrow> collect_context_files fs project_path rest seen_paths context_files
           | Inr n \<Rightarrow>
               if map_of seen_paths full_path \<noteq> None
               then collect_context_files fs project_path rest seen_paths context_files
               else collect_context_files fs project_path rest
                      (AList.update full_path agent_key seen_paths)
                      (AList.update agent_key (full_path, st_mtime n) context_files)))"

text \<open>
  \<open>max(context_files, key=...)\<close>: Python keeps the running maximum and replaces it only by
  a strictly greater item, so the first of several maximal items is returned.
\<close>

fun max_from :: "('a \<Rightarrow> int) \<Rightarrow> 'a \<Rightarrow> 'a list \<Rightarrow> 'a" where
  "max_from key best [] = best"
| "max_from key best (x # xs) = max_from key (if key best < key x then x else best) xs"

text \<open>
  The second loop of \<open>sync_context_files\<close>, over the installed agents. It stops at the first
  exception, of \<open>parent.mkdir\<close> or of \<open>write_text\<close>; the state it had reached is returned
  with the exception.
\<close>

fun write_targets ::
  "path \<Rightarrow> path \<Rightarrow> string \<Rightarrow> (nat \<Rightarrow> int) \<Rightarrow> string list
     \<Rightarrow> world \<times> path list \<times> nat \<times> nat \<Rightarrow> (world \<times> path list \<times> nat \<times> nat) \<times> py_error option" where
  "write_targets project_path newest_path body_content now [] st = (st, None)"
| "write_targets project_path newest_path body_content now (agent_key # rest)
       (w, synced_targets, synced_count, created_count) =
     (case context_path project_path agent_key of
        None \<Rightarrow> write_targets project_path newest_path body_content now rest
                  (w, synced_targets, synced_count, created_count)
      | Some target_path \<Rightarrow>
          if target_path = newest_path
          then write_targets project_path newest_path body_content now rest
                 (w, synced_targets, synced_count, created_count)
          else if target_path \<in> set synced_targets
          then write_targets project_path newest_path body_content now rest
                 (w, synced_targets, synced_count, created_count)
          else
            (let is_new = \<not> path_exists (files w) target_path;
                 formatted = format_context_for_agent agent_key body_content;
                 t = now (length (wlog w))
             in case mkdir_p t (files w) (butlast target_path) of
                  Inl e \<Rightarrow> ((w, synced_targets @ [target_path], synced_count, created_count), Some e)
                | Inr fs1 \<Rightarrow>
                    (case write_file t (Text formatted) fs1 target_path of
                       Inl e \<Rightarrow> ((w\<lparr>files := fs1\<rparr>, synced_targets @ [target_path],
                                   synced_count, created_count), Some e)
                     | Inr fs2 \<Rightarrow>
                         write_targets project_path newest_path body_content now rest
                           (\<lparr>files = fs2, wlog = wlog w @ [target_path]\<rparr>,
                            synced_targets @ [target_path], Suc synced_count,
                            (if is_new then Suc created_count else created_count)))))"

text \<open>
  What the function reports to its tracker: nothing to sync, or the winning agent with the
  numbers of files synced and created.
\<close>

datatype sync_report = NothingToSync | SyncedFrom string nat nat

text \<open>
  The operation. It gives the state it leaves and how it ends: with an exception or with its
  report.
\<close>

definition sync_context_files ::
  "string list \<Rightarrow> path \<Rightarrow> (nat \<Rightarrow> int) \<Rightarrow> fs \<Rightarrow> world \<times> (py_error + sync_report)" where
  "sync_context_files installed_agents project_path now fs0 =
     (case collect_context_files fs0 project_path installed_agents [] [] of
        [] \<Rightarrow> (\<lparr>files = fs0, wlog = []\<rparr>, Inr NothingToSync)
      | c # cs \<Rightarrow>
          (let (newest_agent, newest_path, newest_mtime) = max_from (\<lambda>k. snd (snd k)) c cs
           in case read_text fs0 newest_path of
                Inl e \<Rightarrow> (\<lparr>files = fs0, wlog = []\<rparr>, Inl e)
              | Inr newest_content \<Rightarrow>
                  (let body_content = extract_markdown_body newest_content;
                       ((w, synced_targets, synced_count, created_count), raised) =
                          write_targets project_path newest_path body_content now installed_agents
                            (\<lparr>files = fs0, wlog = []\<rparr>, [], 0, 0)
                   in (w, case raised of
                            Some e \<Rightarrow> Inl e
                          | None \<Rightarrow> Inr (SyncedFrom newest_agent synced_count created_count)))))"

text \<open>
  Accumulator-free readings of the two loops, used in the proofs: \<open>first_seen\<close> lists the
  entries the first loop adds to \<open>context_files\<close> when \<open>S\<close> holds the paths already seen, and
  \<open>new_targets\<close> lists the paths the second loop sets out to write when \<open>S\<close> holds the
  targets already synced.
\<close>

fun first_seen :: "fs \<Rightarrow> path \<Rightarrow> string list \<Rightarrow> path set \<Rightarrow> (string \<times> path \<times> int) list" where
  "first_seen fs proj [] S = []"
| "first_seen fs proj (a # as) S =
     (case context_path proj a of
        None \<Rightarrow> first_seen fs proj as S
      | Some p \<Rightarrow>
          (case stat fs p of
             Inl e \<Rightarrow> first_seen fs proj as S
           | Inr n \<Rightarrow> if p \<in> S then first_seen fs proj as S
                     else (a, p, st_mtime n) # first_seen fs proj as (insert p S)))"

fun new_targets :: "path \<Rightarrow> path \<Rightarrow> string list \<Rightarrow> path set \<Rightarrow> path list" where
  "new_targets proj np [] S = []"
| "new_targets proj np (a # as) S =
     (case context_path proj a of
        None \<Rightarrow> new_targets proj np as S
      | Some t \<Rightarrow> if t = np \<or> t \<in> S then new_targets proj np as S
                  else t # new_targets proj np as (insert t S))"

section \<open>JSON merge\<close>

text \<open>
  A JSON value as \<open>json.load\<close> returns it; \<open>'n\<close> is the type of numbers. An object is a
  Python dict: an association list in insertion order, where assigning to a key replaces the
  value in place or appends the key.
\<close>

datatype 'n json = JNull | JBool bool | JNumber 'n | JString string
  | JArray "'n json list" | JObject "(string \<times> 'n json) list"

text \<open>
  The inner function \<open>deep_merge\<close>: \<open>result\<close> starts as a copy of \<open>base\<close> and the loop runs
  over the items of \<open>update\<close>.
\<close>

fun deep_merge :: "(string \<times> 'n json) list \<Rightarrow> (string \<times> 'n json) list \<Rightarrow> (string \<times> 'n json) list" where
  "deep_merge result [] = result"
| "deep_merge result ((key, v) # rest) =
     deep_merge
       (case map_of result key of
          Some (JObject b) \<Rightarrow>
            (case v of
               JObject u \<Rightarrow> AList.update key (JObject (deep_merge b u)) result
             | _ \<Rightarrow> AList.update key v result)
        | _ \<Rightarrow> AList.update key v result)
       rest"

text \<open>
  \<open>merge_json_files\<close>. The existing file is opened for reading as UTF-8 text and handed to
  \<open>json.load\<close>; \<open>loads\<close> stands for the JSON parser, \<open>None\<close> for its \<open>JSONDecodeError\<close>.
  Only \<open>FileNotFoundError\<close> and \<open>JSONDecodeError\<close> are caught. A parsed value that is not
  an object makes \<open>base.copy()\<close> or the assignment \<open>result[key] = value\<close> raise;
  \<open>new_content\<close> is a dict, as annotated.
\<close>

definition merge_json_files ::
  "(string \<Rightarrow> 'n json option) \<Rightarrow> fs \<Rightarrow> path \<Rightarrow> (string \<times> 'n json) list \<Rightarrow> py_error + 'n json" where
  "merge_json_files loads fs existing_path new_content =
     (case stat fs existing_path of
        Inl e \<Rightarrow> if e = FileNotFoundError then Inr (JObject new_content) else Inl e
      | Inr (Dir m es) \<Rightarrow> Inl IsADirectoryError
      | Inr (File (Binary b) m) \<Rightarrow> Inl UnicodeDecodeError
      | Inr (File (Text s) m) \<Rightarrow>
          (case loads (universal_newlines s) of
             None \<Rightarrow> Inr (JObject new_content)
           | Some existing_content \<Rightarrow>
               (case existing_content of
                  JObject base \<Rightarrow> Inr (JObject (deep_merge base new_content))
                | JArray xs \<Rightarrow> if new_content = [] then Inr (JArray xs) else Inl TypeError
                | _ \<Rightarrow> Inl AttributeError)))"

text \<open>The value one step of the loop stores under \<open>key\<close>, used in the proofs.\<close>

definition merge_entry :: "(string \<times> 'n json) list \<Rightarrow> string \<Rightarrow> 'n json \<Rightarrow> 'n json" where
  "merge_entry result key v =
     (case map_of result key of
        Some (JObject b) \<Rightarrow> (case v of JObject u \<Rightarrow> JObject (deep_merge b u) | _ \<Rightarrow> v)
      | _ \<Rightarrow> v)"

section \<open>Path rewriting\<close>

text \<open>
  The class \<open>\s\<close> of Python's \<open>re\<close> on \<open>str\<close> patterns, for code points below 256: the ASCII
  whitespace, the separators \<open>0x1C\<close> to \<open>0x1F\<close>, \<open>0x85\<close> and \<open>0xA0\<close>.
\<close>

definition py_isspace :: "char \<Rightarrow> bool" where
  "py_isspace c = (of_char c \<in> {9, 10, 11, 12, 13, 28, 29, 30, 31, 32, 133, 160 :: nat})"

text \<open>
  Where a match may start, given the character before the position (\<open>None\<close> at the start of
  the text): \<open>^\<close> under \<open>re.MULTILINE\<close>, and the lookbehind for whitespace, backtick, double
  or single quote.
\<close>

definition at_line_start :: "char option \<Rightarrow> bool" where
  "at_line_start prev = (prev = None \<or> prev = Some NL)"

definition after_delimiter :: "char option \<Rightarrow> bool" where
  "after_delimiter prev =
     (case prev of
        None \<Rightarrow> False
      | Some c \<Rightarrow> py_isspace c \<or> c = CHR 0x60 \<or> c = CHR 0x22 \<or> c = CHR 0x27)"

text \<open>
  \<open>re.sub\<close> of the pattern \<open>(/?)path/\<close>, anchored by \<open>ok\<close>, with \<open>.specforge/path/\<close>: the text
  is scanned from the left, a match is replaced and the scan goes on behind it. The optional
  slash is greedy. \<open>prev\<close> is the character before the position in the text scanned.
\<close>

function sub_path :: "(char option \<Rightarrow> bool) \<Rightarrow> string \<Rightarrow> char option \<Rightarrow> string \<Rightarrow> string" where
  "sub_path ok path prev [] = []"
| "sub_path ok path prev (c # cs) =
     (if ok prev \<and> startswith (c # cs) (''/'' @ path @ ''/'') then
        ''.specforge/'' @ path @ ''/''
          @ sub_path ok path (Some (CHR ''/'')) (drop (length path + 2) (c # cs))
      else if ok prev \<and> startswith (c # cs) (path @ ''/'') then
        ''.specforge/'' @ path @ ''/''
          @ sub_path ok path (Some (CHR ''/'')) (drop (length path + 1) (c # cs))
      else c # sub_path ok path (Some c) cs)"
  by pat_completeness auto
termination
  by (relation "measure (\<lambda>(ok, path, prev, s). length s)") auto

definition rewrite_path :: "string \<Rightarrow> string \<Rightarrow> string" where
  "rewrite_path path content' =
     sub_path after_delimiter path None (sub_path at_line_start path None content')"

definition rewrite_paths_for_bundled :: "string \<Rightarrow> string" where
  "rewrite_paths_for_bundled content' =
     fold rewrite_path [''memory'', ''scripts'', ''templates''] content'"

text \<open>
  The same rewriting of a text that follows the character \<open>prev\<close>;
  \<open>rewrite_paths_for_bundled\<close> is \<open>rewrite_paths_from None\<close>.
\<close>

definition rewrite_paths_from :: "char option \<Rightarrow> string \<Rightarrow> string" where
  "rewrite_paths_from prev content' =
     fold (\<lambda>path c. sub_path after_delimiter path prev (sub_path at_line_start path prev c))
       [''memory'', ''scripts'', ''templates''] content'"

text \<open>No position of the text is the start of a match.\<close>

fun matchfree :: "(char option \<Rightarrow> bool) \<Rightarrow> string \<Rightarrow> char option \<Rightarrow> string \<Rightarrow> bool" where
  "matchfree ok path prev [] = True"
| "matchfree ok path prev (c # cs) =
     (\<not> (ok prev \<and> (startswith (c # cs) (''/'' @ path @ ''/'') \<or> startswith (c # cs) (path @ ''/'')))
      \<and> matchfree ok path (Some c) cs)"

text \<open>
  No reference to one of the three roots stands where the rewriting applies: at the start of
  a line, or behind whitespace, a backtick or a quote.
\<close>

definition no_bare_reference :: "string \<Rightarrow> bool" where
  "no_bare_reference s =
     list_all (\<lambda>path. matchfree at_line_start path None s \<and> matchfree after_delimiter path None s)
       [''memory'', ''scripts'', ''templates'']"

section \<open>Template Renderer\<close>





text \<open>
  \<open>AGENT_COMMAND_DIRS\<close>: the command directory (split at \<open>/\<close>), the file extension and
  the argument format of an agent.
\<close>

definition AGENT_COMMAND_DIRS :: "(string \<times> path \<times> string \<times> string) list" where
  "AGENT_COMMAND_DIRS =
    [
     (''claude'', ([''.claude'', ''commands''], ''md'', ''$ARGUMENTS'')),
     (''gemini'', ([''.gemini'', ''commands''], ''toml'', ''{{args}}'')),
     (''copilot'', ([''.github'', ''agents''], ''agent.md'', ''$ARGUMENTS'')),
     (''cursor-agent'', ([''.cursor'', ''commands''], ''md'', ''$ARGUMENTS'')),
     (''qwen'', ([''.qwen'', ''commands''], ''toml'', ''{{args}}'')),
     (''opencode'', ([''.opencode'', ''command''], ''md'', ''$ARGUMENTS'')),
     (''windsurf'', ([''.windsurf'', ''workflows''], ''md'', ''$ARGUMENTS'')),
     (''codex'', ([''.codex'', ''prompts''], ''md'', ''$ARGUMENTS'')),
     (''kilocode'', ([''.kilocode'', ''workflows''], ''md'', ''$ARGUMENTS'')),
     (''auggie'', ([''.augment'', ''commands''], ''md'', ''$ARGUMENTS'')),
     (''roo'', ([''.roo'', ''commands''], ''md'', ''$ARGUMENTS'')),
     (''codebuddy'', ([''.codebuddy'', ''commands''], ''md'', ''$ARGUMENTS'')),
     (''amp'', ([''.agents'', ''commands''], ''md'', ''$ARGUMENTS'')),
     (''shai'', ([''.shai'', ''commands''], ''md'', ''$ARGUMENTS'')),
     (''q'', ([''.amazonq'', ''prompts''], ''md'', ''$ARGUMENTS'')),
     (''qoder'', ([''.qoder'', ''commands''], ''md'', ''$ARGUMENTS'')),
     (''bob'', ([''.bob'', ''commands''], ''md'', ''$ARGUMENTS''))]"













lemma map_of_append_fresh:
  "map_of es c = None \<Longrightarrow> map_of (es @ [(c, n)]) k = (if k = c then Some n else map_of es k)"
  by (simp add: map_add_def split: option.splits)

lemma stat_empty_dir: "cs \<noteq> [] \<Longrightarrow> stat (Dir t []) cs = Inl FileNotFoundError"
  by (cases cs) simp_all

lemma mkdir_p_fresh:
  "\<exists>n'. mkdir_p t (Dir t []) cs = Inr n' \<and> (\<forall>q x m. stat n' q \<noteq> Inr (File x m))"
proof (induction cs)
  case Nil
  show ?case
  proof (intro exI conjI allI)
    show "mkdir_p t (Dir t []) [] = Inr (Dir t [])" by simp
    fix q x m show "stat (Dir t []) q \<noteq> Inr (File x m)" by (cases q) simp_all
  qed
next
  case (Cons c cs)
  then obtain n' where n: "mkdir_p t (Dir t []) cs = Inr n'"
    and f: "\<And>q x m. stat n' q \<noteq> Inr (File x m)" by blast
  show ?case
  proof (intro exI conjI allI)
    show "mkdir_p t (Dir t []) (c # cs) = Inr (Dir t [(c, n')])" by (simp add: n)
    fix q x m show "stat (Dir t [(c, n')]) q \<noteq> Inr (File x m)"
      by (cases q) (simp_all add: f)
  qed
qed

lemma mkdir_p_files:
  "mkdir_p t fs d = Inr fs' \<Longrightarrow> (stat fs' q = Inr (File x m)) = (stat fs q = Inr (File x m))"
proof (induction d arbitrary: fs fs' q)
  case Nil
  then show ?case by (cases fs) simp_all
next
  case (Cons c cs)
  from Cons.prems obtain m0 es where fs: "fs = Dir m0 es" by (cases fs) simp_all
  show ?case
  proof (cases "map_of es c")
    case None
    from mkdir_p_fresh[of t cs] obtain n' where n: "mkdir_p t (Dir t []) cs = Inr n'"
      and f: "\<And>q x m. stat n' q \<noteq> Inr (File x m)" by blast
    from Cons.prems have fs': "fs' = Dir t (es @ [(c, n')])" by (simp add: fs None n)
    show ?thesis
    proof (cases q)
      case Nil
      then show ?thesis by (simp add: fs fs')
    next
      case (Cons k ks)
      show ?thesis
        by (simp add: fs fs' Cons map_of_append_fresh[OF None] f None del: map_of_append)
    qed
  next
    case (Some n)
    from Cons.prems obtain n' where n: "mkdir_p t n cs = Inr n'"
      and fs': "fs' = Dir m0 (AList.update c n' es)"
      by (auto simp: fs Some split: sum.splits)
    show ?thesis
    proof (cases q)
      case Nil
      then show ?thesis by (simp add: fs fs')
    next
      case (Cons k ks)
      show ?thesis
        using Cons.IH[OF n, of ks]
        by (simp add: fs fs' Cons update_conv' Some)
    qed
  qed
qed

lemma write_file_files:
  "write_file t x fs p = Inr fs' \<Longrightarrow>
     stat fs' p = Inr (File x t)
     \<and> (q \<noteq> p \<longrightarrow> (stat fs' q = Inr (File y m)) = (stat fs q = Inr (File y m)))"
proof (induction p arbitrary: fs fs' q)
  case Nil
  then obtain d m0 where fs: "fs = File d m0" by (cases fs) simp_all
  with Nil have fs': "fs' = File x t" by simp
  show ?case by (cases q) (simp_all add: fs fs')
next
  case (Cons c cs)
  from Cons.prems obtain m0 es where fs: "fs = Dir m0 es" by (cases fs) simp_all
  show ?case
  proof (cases "map_of es c")
    case None
    with Cons.prems have cs: "cs = []" and fs': "fs' = Dir t (es @ [(c, File x t)])"
      by (simp_all add: fs split: if_splits)
    show ?thesis
    proof (cases q)
      case Nil
      then show ?thesis by (simp add: fs fs' cs map_of_append_fresh[OF None] del: map_of_append)
    next
      case (Cons k ks)
      show ?thesis
        by (cases ks) (auto simp add: fs fs' cs Cons map_of_append_fresh[OF None] None simp del: map_of_append)
    qed
  next
    case (Some n)
    from Cons.prems obtain n' where n: "write_file t x n cs = Inr n'"
      and fs': "fs' = Dir m0 (AList.update c n' es)"
      by (auto simp: fs Some split: sum.splits)
    show ?thesis
    proof (cases q)
      case Nil
      then show ?thesis using Cons.IH[OF n, of cs] by (simp add: fs fs' update_conv')
    next
      case (Cons k ks)
      show ?thesis
        using Cons.IH[OF n, of ks]
        by (auto simp add: fs fs' Cons update_conv' Some)
    qed
  qed
qed

lemma file_parent_mkdir:
  "stat fs p = Inr (File y m) \<Longrightarrow> p \<noteq> [] \<Longrightarrow> mkdir_p t fs (butlast p) = Inr fs"
proof (induction p arbitrary: fs)
  case Nil
  then show ?case by simp
next
  case (Cons c cs)
  from Cons.prems obtain m0 es where fs: "fs = Dir m0 es" by (cases fs) simp_all
  from Cons.prems obtain n where s: "map_of es c = Some n" and n: "stat n cs = Inr (File y m)"
    by (auto simp: fs split: option.splits)
  show ?case
  proof (cases "cs = []")
    case True
    then show ?thesis by (simp add: fs)
  next
    case False
    from Cons.IH[OF n False] have "mkdir_p t n (butlast cs) = Inr n" .
    moreover have "AList.update c n es = es" using s by (simp add: map_of_eq_Some_iff update_triv)
    ultimately show ?thesis using False by (simp add: fs s)
  qed
qed

lemma file_write_ok:
  "stat fs p = Inr (File y m) \<Longrightarrow> \<exists>fs'. write_file t x fs p = Inr fs'"
proof (induction p arbitrary: fs)
  case Nil
  then show ?case by (cases fs) simp_all
next
  case (Cons c cs)
  from Cons.prems obtain m0 es where fs: "fs = Dir m0 es" by (cases fs) simp_all
  from Cons.prems obtain n where s: "map_of es c = Some n" and n: "stat n cs = Inr (File y m)"
    by (auto simp: fs split: option.splits)
  from Cons.IH[OF n] obtain n' where "write_file t x n cs = Inr n'" by blast
  then show ?case by (simp add: fs s)
qed

section \<open>Properties of the Context Synchronizer\<close>

lemma max_from_first:
  "\<exists>pre post. best # xs = pre @ max_from key best xs # post
      \<and> (\<forall>y\<in>set pre. key y < key (max_from key best xs))
      \<and> (\<forall>y\<in>set post. key y \<le> key (max_from key best xs))"
proof (induction xs arbitrary: best)
  case Nil
  show ?case by (rule exI[of _ "[]"], rule exI[of _ "[]"]) simp
next
  case (Cons x xs)
  show ?case
  proof (cases "key best < key x")
    case True
    then have eq: "max_from key best (x # xs) = max_from key x xs" by simp
    define m where "m = max_from key x xs"
    from Cons.IH[of x] obtain pre post where
      d: "x # xs = pre @ m # post"
      and lt: "\<forall>y\<in>set pre. key y < key m"
      and le: "\<forall>y\<in>set post. key y \<le> key m" unfolding m_def by blast
    have "x = hd (pre @ m # post)" using d by (metis list.sel(1))
    then have "x = m \<or> x \<in> set pre" by (cases pre) auto
    with lt have "key x \<le> key m" by auto
    with True have b: "key best < key m" by simp
    show ?thesis unfolding eq m_def[symmetric]
    proof (intro exI conjI)
      show "best # x # xs = (best # pre) @ m # post" using d by simp
      show "\<forall>y\<in>set (best # pre). key y < key m" using lt b by simp
      show "\<forall>y\<in>set post. key y \<le> key m" by (rule le)
    qed
  next
    case False
    then have eq: "max_from key best (x # xs) = max_from key best xs" by simp
    define m where "m = max_from key best xs"
    from Cons.IH[of best] obtain pre post where
      d: "best # xs = pre @ m # post"
      and lt: "\<forall>y\<in>set pre. key y < key m"
      and le: "\<forall>y\<in>set post. key y \<le> key m" unfolding m_def by blast
    show ?thesis
    proof (cases pre)
      case Nil
      with d have bm: "best = m" and xs: "xs = post" by simp_all
      show ?thesis unfolding eq m_def[symmetric]
      proof (intro exI conjI)
        show "best # x # xs = [] @ m # (x # post)" using bm xs by simp
        show "\<forall>y\<in>set []. key y < key m" by simp
        show "\<forall>y\<in>set (x # post). key y \<le> key m" using le False bm by auto
      qed
    next
      case (Cons b pre')
      with d have bb: "b = best" and xs: "xs = pre' @ m # post" by simp_all
      from lt Cons bb have bl: "key best < key m" by simp
      show ?thesis unfolding eq m_def[symmetric]
      proof (intro exI conjI)
        show "best # x # xs = (best # x # pre') @ m # post" using xs by simp
        show "\<forall>y\<in>set (best # x # pre'). key y < key m"
          using lt Cons bb False bl by auto
        show "\<forall>y\<in>set post. key y \<le> key m" by (rule le)
      qed
    qed
  qed
qed

lemma update_fresh: "k \<notin> fst ` set al \<Longrightarrow> AList.update k v al = al @ [(k, v)]"
  by (induction al) auto

lemma first_seen_mem:
  "(a, p, m) \<in> set (first_seen fs proj agents S) \<Longrightarrow>
     p \<notin> S \<and> context_path proj a = Some p \<and> (\<exists>n. stat fs p = Inr n \<and> st_mtime n = m)"
  by (induction agents arbitrary: S) (auto split: option.splits if_splits sum.splits)

lemma collect_context_files_eq:
  "\<forall>(a, p, m)\<in>set ctx. context_path proj a = Some p \<and> map_of seen p \<noteq> None \<Longrightarrow>
   collect_context_files fs proj agents seen ctx
     = ctx @ first_seen fs proj agents {p. map_of seen p \<noteq> None}"
proof (induction agents arbitrary: seen ctx)
  case Nil
  show ?case by simp
next
  case (Cons agent rest)
  show ?case
  proof (cases "\<exists>full n. context_path proj agent = Some full \<and> stat fs full = Inr n
                  \<and> map_of seen full = None")
    case False
    then have "collect_context_files fs proj (agent # rest) seen ctx
                = collect_context_files fs proj rest seen ctx"
      and "first_seen fs proj (agent # rest) {p. map_of seen p \<noteq> None}
                = first_seen fs proj rest {p. map_of seen p \<noteq> None}"
      by (auto split: option.splits sum.splits)
    with Cons.IH[OF Cons.prems] show ?thesis by simp
  next
    case True
    then obtain full n where c: "context_path proj agent = Some full"
      and e: "stat fs full = Inr n" and s: "map_of seen full = None" by blast
    have fresh: "agent \<notin> fst ` set ctx"
    proof
      assume "agent \<in> fst ` set ctx"
      then obtain p m where "(agent, p, m) \<in> set ctx" by auto
      with Cons.prems have "context_path proj agent = Some p" "map_of seen p \<noteq> None" by auto
      with c s show False by simp
    qed
    let ?seen' = "AList.update full agent seen"
    let ?ctx' = "ctx @ [(agent, full, st_mtime n)]"
    have eq: "collect_context_files fs proj (agent # rest) seen ctx
              = collect_context_files fs proj rest ?seen' ?ctx'"
      using c e s by (simp add: update_fresh[OF fresh])
    have pre': "\<forall>(a, p, m)\<in>set ?ctx'. context_path proj a = Some p \<and> map_of ?seen' p \<noteq> None"
      using Cons.prems c by (auto simp: update_conv')
    have S: "{p. map_of ?seen' p \<noteq> None} = insert full {p. map_of seen p \<noteq> None}"
      by (auto simp: update_conv')
    have "first_seen fs proj (agent # rest) {p. map_of seen p \<noteq> None}
          = (agent, full, st_mtime n) # first_seen fs proj rest (insert full {p. map_of seen p \<noteq> None})"
      using c e s by simp
    with Cons.IH[OF pre'] eq S show ?thesis by simp
  qed
qed

lemma candidates_eq:
  "collect_context_files fs proj agents [] [] = first_seen fs proj agents {}"
  using collect_context_files_eq[of "[]" proj "[]" fs agents] by simp

lemma first_seen_distinct: "distinct (map (fst \<circ> snd) (first_seen fs proj agents S))"
proof (induction agents arbitrary: S)
  case Nil show ?case by simp
next
  case (Cons a as)
  show ?case
  proof (cases "\<exists>p n. context_path proj a = Some p \<and> stat fs p = Inr n \<and> p \<notin> S")
    case True
    then obtain p n where h: "context_path proj a = Some p" "stat fs p = Inr n" "p \<notin> S" by blast
    have "p \<notin> (fst \<circ> snd) ` set (first_seen fs proj as (insert p S))"
      using first_seen_mem[of _ p _ fs proj as "insert p S"] by auto
    with h Cons.IH[of "insert p S"] show ?thesis by simp
  next
    case False
    then have "first_seen fs proj (a # as) S = first_seen fs proj as S"
      by (auto split: option.splits sum.splits)
    with Cons.IH[of S] show ?thesis by simp
  qed
qed

lemma first_seen_subseq: "subseq (map fst (first_seen fs proj agents S)) agents"
  by (induction agents arbitrary: S) (auto split: option.splits sum.splits)

lemma first_seen_first:
  "(a, p, m) \<in> set (first_seen fs proj agents S) \<Longrightarrow>
     \<exists>pre post. agents = pre @ a # post \<and> (\<forall>b\<in>set pre. context_path proj b \<noteq> Some p)"
proof (induction agents arbitrary: S)
  case Nil then show ?case by simp
next
  case (Cons x xs)
  from first_seen_mem[OF Cons.prems] obtain n where ap: "context_path proj a = Some p"
    and fp: "stat fs p = Inr n" and pS: "p \<notin> S" by auto
  show ?case
  proof (cases "a = x")
    case True
    then have "x # xs = [] @ a # xs \<and> (\<forall>b\<in>set []. context_path proj b \<noteq> Some p)" by simp
    then show ?thesis by blast
  next
    case False
    have "\<exists>S'. (a, p, m) \<in> set (first_seen fs proj xs S') \<and> (context_path proj x = Some p \<longrightarrow> p \<in> S')"
    proof (cases "context_path proj x = Some p")
      case True
      with fp pS Cons.prems False have "(a, p, m) \<in> set (first_seen fs proj xs (insert p S))"
        by simp
      then show ?thesis by blast
    next
      case nx: False
      show ?thesis
      proof (cases "\<exists>q k. context_path proj x = Some q \<and> stat fs q = Inr k \<and> q \<notin> S")
        case True
        then obtain q k where h: "context_path proj x = Some q" "stat fs q = Inr k" "q \<notin> S"
          by blast
        with Cons.prems False have "(a, p, m) \<in> set (first_seen fs proj xs (insert q S))" by simp
        with nx show ?thesis by blast
      next
        case F2: False
        then have "first_seen fs proj (x # xs) S = first_seen fs proj xs S"
          by (auto split: option.splits sum.splits)
        with Cons.prems nx show ?thesis by auto
      qed
    qed
    then obtain S' where in': "(a, p, m) \<in> set (first_seen fs proj xs S')"
      and imp: "context_path proj x = Some p \<longrightarrow> p \<in> S'" by blast
    from first_seen_mem[OF in'] imp have nx: "context_path proj x \<noteq> Some p" by blast
    from Cons.IH[OF in'] obtain pre post where "xs = pre @ a # post"
      "\<forall>b\<in>set pre. context_path proj b \<noteq> Some p" by blast
    with nx have "x # xs = (x # pre) @ a # post \<and> (\<forall>b\<in>set (x # pre). context_path proj b \<noteq> Some p)"
      by simp
    then show ?thesis by blast
  qed
qed

lemma first_seen_complete:
  "b \<in> set agents \<Longrightarrow> context_path proj b = Some q \<Longrightarrow> stat fs q = Inr k \<Longrightarrow> q \<notin> S \<Longrightarrow>
     q \<in> (fst \<circ> snd) ` set (first_seen fs proj agents S)"
proof (induction agents arbitrary: S)
  case Nil then show ?case by simp
next
  case (Cons x xs)
  show ?case
  proof (cases "context_path proj x = Some q")
    case True
    with Cons.prems show ?thesis by (auto split: option.splits)
  next
    case False
    with Cons.prems have bx: "b \<in> set xs" by auto
    show ?thesis
    proof (cases "\<exists>p n. context_path proj x = Some p \<and> stat fs p = Inr n \<and> p \<notin> S")
      case True
      then obtain p n where h: "context_path proj x = Some p" "stat fs p = Inr n" "p \<notin> S" by blast
      with False have "q \<notin> insert p S" using Cons.prems by auto
      from Cons.IH[OF bx Cons.prems(2,3) this] h show ?thesis by auto
    next
      case F2: False
      then have "first_seen fs proj (x # xs) S = first_seen fs proj xs S"
        by (auto split: option.splits sum.splits)
      with Cons.IH[OF bx Cons.prems(2,3,4)] show ?thesis by simp
    qed
  qed
qed

lemma first_max_unique:
  assumes "xs = pre @ x # post" "\<forall>y\<in>set pre. key y < (key x :: int)" "\<forall>y\<in>set post. key y \<le> key x"
    and "xs = pre' @ x' # post'" "\<forall>y\<in>set pre'. key y < key x'" "\<forall>y\<in>set post'. key y \<le> key x'"
  shows "pre = pre' \<and> x = x' \<and> post = post'"
proof -
  have len: "length pre = length pre'"
  proof (rule ccontr)
    assume ne: "length pre \<noteq> length pre'"
    show False
    proof (cases "length pre < length pre'")
      case True
      have "xs ! length pre = x" using assms(1) by simp
      moreover have "xs ! length pre = pre' ! length pre" using assms(4) True
        by (simp add: nth_append)
      ultimately have xin: "x \<in> set pre'" using True by (metis nth_mem)
      have "xs ! length pre' = x'" using assms(4) by simp
      moreover have "xs ! length pre' = post ! (length pre' - length pre - 1)"
        using assms(1) True by (simp add: nth_append)
      moreover have "length pre' - length pre - 1 < length post"
      proof -
        have "length pre' < length xs" using assms(4) by simp
        then show ?thesis using assms(1) True by simp
      qed
      ultimately have "x' \<in> set post" by (metis nth_mem)
      with xin assms(3,5) show False by fastforce
    next
      case False
      with ne have lt: "length pre' < length pre" by simp
      have "xs ! length pre' = x'" using assms(4) by simp
      moreover have "xs ! length pre' = pre ! length pre'" using assms(1) lt
        by (simp add: nth_append)
      ultimately have xin: "x' \<in> set pre" using lt by (metis nth_mem)
      have "xs ! length pre = x" using assms(1) by simp
      moreover have "xs ! length pre = post' ! (length pre - length pre' - 1)"
        using assms(4) lt by (simp add: nth_append)
      moreover have "length pre - length pre' - 1 < length post'"
      proof -
        have "length pre < length xs" using assms(1) by simp
        then show ?thesis using assms(4) lt by simp
      qed
      ultimately have "x \<in> set post'" by (metis nth_mem)
      with xin assms(2,6) show False by fastforce
    qed
  qed
  from assms(1,4) have "pre @ x # post = pre' @ x' # post'" by simp
  with len show ?thesis by simp
qed

lemma cursor_path_unique:
  "context_path proj a = Some q \<Longrightarrow> context_path proj b = Some q \<Longrightarrow>
     (a = ''cursor-agent'') = (b = ''cursor-agent'')"
  unfolding context_path_def AGENT_CONTEXT_PATHS_def
  by (auto split: if_splits)

lemma format_same_path:
  "context_path proj a = Some q \<Longrightarrow> context_path proj b = Some q \<Longrightarrow>
     format_context_for_agent a body = format_context_for_agent b body"
  using cursor_path_unique[of proj a q b] by (simp add: format_context_for_agent_def)

lemma new_targets_mem:
  "t \<in> set (new_targets proj np agents S) \<longleftrightarrow>
     (\<exists>a\<in>set agents. context_path proj a = Some t) \<and> t \<noteq> np \<and> t \<notin> S"
  by (induction agents arbitrary: S) (auto split: option.splits)

lemma new_targets_distinct: "distinct (new_targets proj np agents S)"
  by (induction agents arbitrary: S) (auto split: option.splits simp: new_targets_mem)

lemma context_path_nonempty: "context_path proj a = Some p \<Longrightarrow> p \<noteq> []"
  by (auto simp: context_path_def split: option.splits if_splits)

lemma write_targets_skip:
  "context_path proj a = None \<or> context_path proj a = Some np
     \<or> (\<exists>t. context_path proj a = Some t \<and> t \<in> set st) \<Longrightarrow>
   write_targets proj np body now (a # as) (w, st, n, c)
     = write_targets proj np body now as (w, st, n, c)"
  by (auto split: option.splits)

lemma write_targets_step:
  assumes "context_path proj a = Some t" "t \<noteq> np" "t \<notin> set st"
  shows "(\<exists>e. mkdir_p (now (length (wlog w))) (files w) (butlast t) = Inl e
            \<and> write_targets proj np body now (a # as) (w, st, n, c)
                = ((w, st @ [t], n, c), Some e))
       \<or> (\<exists>fs1 e. mkdir_p (now (length (wlog w))) (files w) (butlast t) = Inr fs1
            \<and> write_file (now (length (wlog w))) (Text (format_context_for_agent a body)) fs1 t = Inl e
            \<and> write_targets proj np body now (a # as) (w, st, n, c)
                = ((w\<lparr>files := fs1\<rparr>, st @ [t], n, c), Some e))
       \<or> (\<exists>fs1 fs2. mkdir_p (now (length (wlog w))) (files w) (butlast t) = Inr fs1
            \<and> write_file (now (length (wlog w))) (Text (format_context_for_agent a body)) fs1 t = Inr fs2
            \<and> write_targets proj np body now (a # as) (w, st, n, c)
                = write_targets proj np body now as
                    (\<lparr>files = fs2, wlog = wlog w @ [t]\<rparr>, st @ [t], Suc n,
                     (if \<not> path_exists (files w) t then Suc c else c)))"
  using assms by (simp add: Let_def split: sum.splits)

lemma new_targets_skip:
  "context_path proj a = None \<or> context_path proj a = Some np
     \<or> (\<exists>t. context_path proj a = Some t \<and> t \<in> S) \<Longrightarrow>
   new_targets proj np (a # as) S = new_targets proj np as S"
  by (auto split: option.splits)

lemma new_targets_step:
  "context_path proj a = Some t \<Longrightarrow> t \<noteq> np \<Longrightarrow> t \<notin> S \<Longrightarrow>
   new_targets proj np (a # as) S = t # new_targets proj np as (insert t S)"
  by simp

lemma write_targets_trace:
  "write_targets proj np body now agents (w, st, n, c) = ((w', st', n', c'), err) \<Longrightarrow>
     \<exists>ws. wlog w' = wlog w @ ws \<and> prefix ws (new_targets proj np agents (set st))
        \<and> (err = None \<longrightarrow> ws = new_targets proj np agents (set st) \<and> n' = n + length ws)"
proof (induction agents arbitrary: w st n c)
  case Nil
  then show ?case by simp
next
  case (Cons a as)
  show ?case
  proof (cases "\<exists>t. context_path proj a = Some t \<and> t \<noteq> np \<and> t \<notin> set st")
    case True
    then obtain t where h: "context_path proj a = Some t" "t \<noteq> np" "t \<notin> set st" by blast
    note nt = new_targets_step[OF h(1,2), of "set st" as, OF h(3)]
    from write_targets_step[OF h, of now w body as n c]
    consider (A) e where "write_targets proj np body now (a # as) (w, st, n, c)
                = ((w, st @ [t], n, c), Some e)"
      | (B) fs1 e where "write_targets proj np body now (a # as) (w, st, n, c)
                = ((w\<lparr>files := fs1\<rparr>, st @ [t], n, c), Some e)"
      | (C) fs2 where "write_targets proj np body now (a # as) (w, st, n, c)
                = write_targets proj np body now as
                    (\<lparr>files = fs2, wlog = wlog w @ [t]\<rparr>, st @ [t], Suc n,
                     (if \<not> path_exists (files w) t then Suc c else c))"
      by blast
    then show ?thesis
    proof cases
      case A
      with Cons.prems have "w' = w" "err = Some e" by simp_all
      then show ?thesis by simp
    next
      case B
      with Cons.prems have "w' = w\<lparr>files := fs1\<rparr>" "err = Some e" by simp_all
      then show ?thesis by simp
    next
      case C
      from Cons.prems[unfolded C] have "\<exists>ws. wlog w' = wlog \<lparr>files = fs2, wlog = wlog w @ [t]\<rparr> @ ws
          \<and> prefix ws (new_targets proj np as (set (st @ [t])))
          \<and> (err = None \<longrightarrow> ws = new_targets proj np as (set (st @ [t])) \<and> n' = Suc n + length ws)"
        by (rule Cons.IH)
      then obtain ws where ws: "wlog w' = wlog w @ [t] @ ws"
        "prefix ws (new_targets proj np as (insert t (set st)))"
        "err = None \<longrightarrow> ws = new_targets proj np as (insert t (set st)) \<and> n' = Suc n + length ws"
        by auto
      show ?thesis
      proof (intro exI conjI)
        show "wlog w' = wlog w @ (t # ws)" using ws(1) by simp
        show "prefix (t # ws) (new_targets proj np (a # as) (set st))" using ws(2) nt by simp
        show "err = None \<longrightarrow> t # ws = new_targets proj np (a # as) (set st) \<and> n' = n + length (t # ws)"
          using ws(3) nt by simp
      qed
    qed
  next
    case False
    then have sk: "context_path proj a = None \<or> context_path proj a = Some np
     \<or> (\<exists>t. context_path proj a = Some t \<and> t \<in> set st)" by (cases "context_path proj a") auto
    from Cons.prems[unfolded write_targets_skip[OF sk]]
    have "\<exists>ws. wlog w' = wlog w @ ws \<and> prefix ws (new_targets proj np as (set st))
        \<and> (err = None \<longrightarrow> ws = new_targets proj np as (set st) \<and> n' = n + length ws)"
      by (rule Cons.IH)
    then show ?thesis unfolding new_targets_skip[OF sk] .
  qed
qed

lemma step_files:
  assumes m: "mkdir_p t0 fs0 d = Inr fs1" and wr: "write_file t0 x0 fs1 t = Inr fs2" and q: "q \<noteq> t"
  shows "(stat fs2 q = Inr (File x m)) = (stat fs0 q = Inr (File x m))"
  using write_file_files[OF wr, of q x m] mkdir_p_files[OF m, of q x m] q by simp

lemma write_targets_files:
  "write_targets proj np body now agents (w, st, n, c) = ((w', st', n', c'), err) \<Longrightarrow>
   q \<notin> set (new_targets proj np agents (set st)) \<Longrightarrow>
     (stat (files w') q = Inr (File x m)) = (stat (files w) q = Inr (File x m))"
proof (induction agents arbitrary: w st n c)
  case Nil
  then show ?case by simp
next
  case (Cons a as)
  show ?case
  proof (cases "\<exists>t. context_path proj a = Some t \<and> t \<noteq> np \<and> t \<notin> set st")
    case True
    then obtain t where h: "context_path proj a = Some t" "t \<noteq> np" "t \<notin> set st" by blast
    note nt = new_targets_step[OF h(1,2), of "set st" as, OF h(3)]
    from Cons.prems(2) nt have q: "q \<noteq> t" "q \<notin> set (new_targets proj np as (set (st @ [t])))"
      by auto
    from write_targets_step[OF h, of now w body as n c]
    consider (A) e where "write_targets proj np body now (a # as) (w, st, n, c)
                = ((w, st @ [t], n, c), Some e)"
      | (B) fs1 e where "mkdir_p (now (length (wlog w))) (files w) (butlast t) = Inr fs1"
          "write_targets proj np body now (a # as) (w, st, n, c)
                = ((w\<lparr>files := fs1\<rparr>, st @ [t], n, c), Some e)"
      | (C) fs1 fs2 where "mkdir_p (now (length (wlog w))) (files w) (butlast t) = Inr fs1"
          "write_file (now (length (wlog w))) (Text (format_context_for_agent a body)) fs1 t = Inr fs2"
          "write_targets proj np body now (a # as) (w, st, n, c)
                = write_targets proj np body now as
                    (\<lparr>files = fs2, wlog = wlog w @ [t]\<rparr>, st @ [t], Suc n,
                     (if \<not> path_exists (files w) t then Suc c else c))"
      by blast
    then show ?thesis
    proof cases
      case A
      with Cons.prems have "w' = w" by simp
      then show ?thesis by simp
    next
      case B
      with Cons.prems have "w' = w\<lparr>files := fs1\<rparr>" by simp
      then show ?thesis using mkdir_p_files[OF B(1), of q x m] by simp
    next
      case C
      from Cons.IH[OF Cons.prems(1)[unfolded C(3)] q(2)] step_files[OF C(1,2) q(1), of x m]
      show ?thesis by simp
    qed
  next
    case False
    then have sk: "context_path proj a = None \<or> context_path proj a = Some np
     \<or> (\<exists>t. context_path proj a = Some t \<and> t \<in> set st)" by (cases "context_path proj a") auto
    from Cons.IH[OF Cons.prems(1)[unfolded write_targets_skip[OF sk]]]
      Cons.prems(2)[unfolded new_targets_skip[OF sk]]
    show ?thesis .
  qed
qed

lemma write_targets_written:
  "write_targets proj np body now agents (w, st, n, c) = ((w', st', n', c'), None) \<Longrightarrow>
   b \<in> set agents \<Longrightarrow> context_path proj b = Some q \<Longrightarrow> q \<noteq> np \<Longrightarrow> q \<notin> set st \<Longrightarrow>
     \<exists>t. stat (files w') q = Inr (File (Text (format_context_for_agent b body)) t)"
proof (induction agents arbitrary: w st n c)
  case Nil
  then show ?case by simp
next
  case (Cons a as)
  show ?case
  proof (cases "\<exists>t. context_path proj a = Some t \<and> t \<noteq> np \<and> t \<notin> set st")
    case True
    then obtain t where h: "context_path proj a = Some t" "t \<noteq> np" "t \<notin> set st" by blast
    from write_targets_step[OF h, of now w body as n c] Cons.prems(1)
    obtain fs1 fs2 where C: "mkdir_p (now (length (wlog w))) (files w) (butlast t) = Inr fs1"
          "write_file (now (length (wlog w))) (Text (format_context_for_agent a body)) fs1 t = Inr fs2"
          "write_targets proj np body now (a # as) (w, st, n, c)
                = write_targets proj np body now as
                    (\<lparr>files = fs2, wlog = wlog w @ [t]\<rparr>, st @ [t], Suc n,
                     (if \<not> path_exists (files w) t then Suc c else c))"
      by auto
    note run = Cons.prems(1)[unfolded C(3)]
    show ?thesis
    proof (cases "q = t")
      case True
      have "q \<notin> set (new_targets proj np as (set (st @ [t])))" using True
        by (simp add: new_targets_mem)
      from write_targets_files[OF run this] write_file_files[OF C(2), of t]
      have "stat (files w') q
            = Inr (File (Text (format_context_for_agent a body)) (now (length (wlog w))))"
        using True by simp
      moreover have "format_context_for_agent a body = format_context_for_agent b body"
        using format_same_path[OF h(1)] Cons.prems(3) True by simp
      ultimately show ?thesis by simp
    next
      case False
      with Cons.prems(2,3) h have "b \<in> set as" by auto
      from Cons.IH[OF run this Cons.prems(3,4)] False Cons.prems(5) show ?thesis by simp
    qed
  next
    case False
    then have sk: "context_path proj a = None \<or> context_path proj a = Some np
     \<or> (\<exists>t. context_path proj a = Some t \<and> t \<in> set st)" by (cases "context_path proj a") auto
    from False Cons.prems(2-5) have "b \<in> set as" by auto
    from Cons.IH[OF Cons.prems(1)[unfolded write_targets_skip[OF sk]] this Cons.prems(3-5)]
    show ?thesis .
  qed
qed

lemma write_targets_ok:
  "\<forall>a\<in>set agents. \<forall>q. context_path proj a = Some q \<longrightarrow> q \<noteq> np \<longrightarrow>
       (\<exists>y m. stat (files w) q = Inr (File y m)) \<Longrightarrow>
     \<exists>w' st' n'. write_targets proj np body now agents (w, st, n, c) = ((w', st', n', c), None)"
proof (induction agents arbitrary: w st n)
  case Nil
  show ?case by simp
next
  case (Cons a as)
  show ?case
  proof (cases "\<exists>t. context_path proj a = Some t \<and> t \<noteq> np \<and> t \<notin> set st")
    case True
    then obtain t where h: "context_path proj a = Some t" "t \<noteq> np" "t \<notin> set st" by blast
    from Cons.prems h have "\<exists>y m. stat (files w) t = Inr (File y m)"
      by (meson list.set_intros(1))
    then obtain y m where f: "stat (files w) t = Inr (File y m)" by blast
    let ?T = "now (length (wlog w))"
    have mk: "mkdir_p ?T (files w) (butlast t) = Inr (files w)"
      by (rule file_parent_mkdir[OF f context_path_nonempty[OF h(1)]])
    from file_write_ok[OF f] obtain fs2 where
      wr: "write_file ?T (Text (format_context_for_agent a body)) (files w) t = Inr fs2" by blast
    have ex: "path_exists (files w) t" using f by (simp add: path_exists_def)
    have eq: "write_targets proj np body now (a # as) (w, st, n, c)
                = write_targets proj np body now as
                    (\<lparr>files = fs2, wlog = wlog w @ [t]\<rparr>, st @ [t], Suc n, c)"
      using h mk wr ex by (simp add: Let_def)
    have "\<forall>b\<in>set as. \<forall>q. context_path proj b = Some q \<longrightarrow> q \<noteq> np \<longrightarrow>
       (\<exists>y m. stat (files \<lparr>files = fs2, wlog = wlog w @ [t]\<rparr>) q = Inr (File y m))"
    proof (intro ballI allI impI)
      fix b q assume b: "b \<in> set as" "context_path proj b = Some q" "q \<noteq> np"
      with Cons.prems have "\<exists>y m. stat (files w) q = Inr (File y m)"
        by (meson list.set_intros(2))
      then obtain y' m' where o: "stat (files w) q = Inr (File y' m')" by blast
      show "\<exists>y m. stat (files \<lparr>files = fs2, wlog = wlog w @ [t]\<rparr>) q = Inr (File y m)"
      proof (cases "q = t")
        case True
        then show ?thesis using write_file_files[OF wr, of t] by simp
      next
        case False
        then show ?thesis using write_file_files[OF wr, of q y' m'] o by simp
      qed
    qed
    from Cons.IH[OF this] eq show ?thesis by simp
  next
    case False
    then have sk: "context_path proj a = None \<or> context_path proj a = Some np
     \<or> (\<exists>t. context_path proj a = Some t \<and> t \<in> set st)" by (cases "context_path proj a") auto
    from Cons.prems have "\<forall>b\<in>set as. \<forall>q. context_path proj b = Some q \<longrightarrow> q \<noteq> np \<longrightarrow>
       (\<exists>y m. stat (files w) q = Inr (File y m))" by simp
    from Cons.IH[OF this] show ?thesis unfolding write_targets_skip[OF sk] .
  qed
qed

lemma sync_context_files_empty:
  "collect_context_files fs proj agents [] [] = [] \<Longrightarrow>
     sync_context_files agents proj now fs = (\<lparr>files = fs, wlog = []\<rparr>, Inr NothingToSync)"
  by (simp add: sync_context_files_def)

lemma sync_context_files_run:
  assumes "collect_context_files fs proj agents [] [] = c # cs"
  shows "\<exists>a p m. max_from (\<lambda>k. snd (snd k)) c cs = (a, p, m) \<and> (a, p, m) \<in> set (c # cs)
         \<and> a \<in> set agents \<and> context_path proj a = Some p
         \<and> (\<forall>e. read_text fs p = Inl e \<longrightarrow>
               sync_context_files agents proj now fs = (\<lparr>files = fs, wlog = []\<rparr>, Inl e))
         \<and> (\<forall>cnt. read_text fs p = Inr cnt \<longrightarrow>
               (\<exists>w st n cc err.
                  write_targets proj p (extract_markdown_body cnt) now agents
                    (\<lparr>files = fs, wlog = []\<rparr>, [], 0, 0) = ((w, st, n, cc), err)
                  \<and> sync_context_files agents proj now fs
                      = (w, case err of Some e \<Rightarrow> Inl e | None \<Rightarrow> Inr (SyncedFrom a n cc))))"
proof -
  obtain a p m where mx: "max_from (\<lambda>k. snd (snd k)) c cs = (a, p, m)"
    by (cases "max_from (\<lambda>k. snd (snd k)) c cs") auto
  from max_from_first[of c cs "\<lambda>k. snd (snd k)"] mx
  have mem: "(a, p, m) \<in> set (c # cs)" by (metis in_set_conv_decomp)
  with assms have fsn: "(a, p, m) \<in> set (first_seen fs proj agents {})"
    by (simp add: candidates_eq)
  from first_seen_mem[OF fsn] have cp: "context_path proj a = Some p" by auto
  from first_seen_first[OF fsn] have ain: "a \<in> set agents" by auto
  have e: "\<forall>e. read_text fs p = Inl e \<longrightarrow>
               sync_context_files agents proj now fs = (\<lparr>files = fs, wlog = []\<rparr>, Inl e)"
    using assms mx by (simp add: sync_context_files_def)
  have r: "\<forall>cnt. read_text fs p = Inr cnt \<longrightarrow>
               (\<exists>w st n cc err.
                  write_targets proj p (extract_markdown_body cnt) now agents
                    (\<lparr>files = fs, wlog = []\<rparr>, [], 0, 0) = ((w, st, n, cc), err)
                  \<and> sync_context_files agents proj now fs
                      = (w, case err of Some e \<Rightarrow> Inl e | None \<Rightarrow> Inr (SyncedFrom a n cc)))"
  proof (intro allI impI)
    fix cnt assume t: "read_text fs p = Inr cnt"
    obtain w st n cc err where wt: "write_targets proj p (extract_markdown_body cnt) now agents
                    (\<lparr>files = fs, wlog = []\<rparr>, [], 0, 0) = ((w, st, n, cc), err)"
      by (metis prod.exhaust)
    have "sync_context_files agents proj now fs
                      = (w, case err of Some e \<Rightarrow> Inl e | None \<Rightarrow> Inr (SyncedFrom a n cc))"
      using assms mx t wt by (simp add: sync_context_files_def)
    with wt show "\<exists>w st n cc err.
                  write_targets proj p (extract_markdown_body cnt) now agents
                    (\<lparr>files = fs, wlog = []\<rparr>, [], 0, 0) = ((w, st, n, cc), err)
                  \<and> sync_context_files agents proj now fs
                      = (w, case err of Some e \<Rightarrow> Inl e | None \<Rightarrow> Inr (SyncedFrom a n cc))"
      by blast
  qed
  from mx mem ain cp e r show ?thesis by blast
qed

lemma winner_is_first_max:
  assumes dec: "collect_context_files fs proj agents [] [] = pre @ (a, p, m) # post"
    and lt: "\<forall>x\<in>set pre. snd (snd x) < m" and le: "\<forall>x\<in>set post. snd (snd x) \<le> m"
  shows "\<exists>c cs. collect_context_files fs proj agents [] [] = c # cs
           \<and> max_from (\<lambda>k. snd (snd k)) c cs = (a, p, m)"
proof -
  have "collect_context_files fs proj agents [] [] \<noteq> []" using dec by simp
  then obtain c cs where ccs: "collect_context_files fs proj agents [] [] = c # cs"
    by (meson list.exhaust)
  obtain a' p' m' where mx: "max_from (\<lambda>k. snd (snd k)) c cs = (a', p', m')"
    by (cases "max_from (\<lambda>k. snd (snd k)) c cs") auto
  from max_from_first[of c cs "\<lambda>k. snd (snd k)"] mx obtain pre' post' where
    d': "c # cs = pre' @ (a', p', m') # post'"
    and lt': "\<forall>y\<in>set pre'. snd (snd y) < m'" and le': "\<forall>y\<in>set post'. snd (snd y) \<le> m'"
    by auto
  have "pre = pre' \<and> (a, p, m) = (a', p', m') \<and> post = post'"
    by (rule first_max_unique[where key = "\<lambda>k. snd (snd k)" and xs = "c # cs"])
       (use dec ccs d' lt le lt' le' in auto)
  with ccs mx show ?thesis by simp
qed

lemma sync_context_files_trace:
  "distinct (wlog (fst (sync_context_files agents proj now fs)))"
proof (cases "collect_context_files fs proj agents [] []")
  case Nil
  then show ?thesis by (simp add: sync_context_files_empty)
next
  case (Cons c cs)
  from sync_context_files_run[OF Cons, of now] obtain a p where
    e: "\<And>e. read_text fs p = Inl e \<Longrightarrow>
               sync_context_files agents proj now fs = (\<lparr>files = fs, wlog = []\<rparr>, Inl e)"
    and r: "\<And>cnt. read_text fs p = Inr cnt \<Longrightarrow>
               (\<exists>w st n cc err.
                  write_targets proj p (extract_markdown_body cnt) now agents
                    (\<lparr>files = fs, wlog = []\<rparr>, [], 0, 0) = ((w, st, n, cc), err)
                  \<and> sync_context_files agents proj now fs
                      = (w, case err of Some e \<Rightarrow> Inl e | None \<Rightarrow> Inr (SyncedFrom a n cc)))"
    by blast
  show ?thesis
  proof (cases "read_text fs p")
    case (Inl x)
    from e[OF this] show ?thesis by simp
  next
    case (Inr cnt)
    from r[OF this] obtain w st n cc err where
      wt: "write_targets proj p (extract_markdown_body cnt) now agents
                    (\<lparr>files = fs, wlog = []\<rparr>, [], 0, 0) = ((w, st, n, cc), err)"
      and s: "sync_context_files agents proj now fs
                      = (w, case err of Some e \<Rightarrow> Inl e | None \<Rightarrow> Inr (SyncedFrom a n cc))"
      by blast
    from write_targets_trace[OF wt] obtain ws where
      "wlog w = ws" "prefix ws (new_targets proj p agents {})" by auto
    moreover have "distinct (new_targets proj p agents {})" by (rule new_targets_distinct)
    ultimately have "distinct (wlog w)" by (auto simp: prefix_def)
    with s show ?thesis by simp
  qed
qed

text \<open>
  Claim C3. Agents whose context paths are the same physical file yield one discovery
  candidate, kept for the first such agent of the installed list: the candidates of the
  first loop have pairwise distinct paths; each is the existing context path of its agent,
  and no agent before that agent in the installed list has the same path; every existing
  context path of an installed agent is the path of a candidate. One pass writes every
  target path at most once: the trace of writes the call leaves, however it ends, holds no
  path twice.
\<close>

theorem context_alias_dedup:
  "distinct (map (fst \<circ> snd) (collect_context_files fs proj agents [] []))
   \<and> (\<forall>(a, p, m)\<in>set (collect_context_files fs proj agents [] []).
        context_path proj a = Some p \<and> path_exists fs p
        \<and> (\<exists>pre post. agents = pre @ a # post \<and> (\<forall>b\<in>set pre. context_path proj b \<noteq> Some p)))
   \<and> (\<forall>b\<in>set agents. \<forall>q. context_path proj b = Some q \<longrightarrow> path_exists fs q \<longrightarrow>
        q \<in> (fst \<circ> snd) ` set (collect_context_files fs proj agents [] []))
   \<and> distinct (wlog (fst (sync_context_files agents proj now fs)))"
proof (intro conjI)
  show "distinct (map (fst \<circ> snd) (collect_context_files fs proj agents [] []))"
    unfolding candidates_eq by (rule first_seen_distinct)
next
  show "\<forall>(a, p, m)\<in>set (collect_context_files fs proj agents [] []).
        context_path proj a = Some p \<and> path_exists fs p
        \<and> (\<exists>pre post. agents = pre @ a # post \<and> (\<forall>b\<in>set pre. context_path proj b \<noteq> Some p))"
    unfolding candidates_eq
  proof (intro ballI, clarify, intro conjI)
    fix a p m assume h: "(a, p, m) \<in> set (first_seen fs proj agents {})"
    from first_seen_mem[OF h] show "context_path proj a = Some p" by simp
    from first_seen_mem[OF h] show "path_exists fs p" by (auto simp: path_exists_def)
    from first_seen_first[OF h]
    show "\<exists>pre post. agents = pre @ a # post \<and> (\<forall>b\<in>set pre. context_path proj b \<noteq> Some p)" .
  qed
next
  show "\<forall>b\<in>set agents. \<forall>q. context_path proj b = Some q \<longrightarrow> path_exists fs q \<longrightarrow>
        q \<in> (fst \<circ> snd) ` set (collect_context_files fs proj agents [] [])"
    unfolding candidates_eq
  proof (intro ballI allI impI)
    fix b q assume b: "b \<in> set agents" "context_path proj b = Some q" "path_exists fs q"
    from b(3) obtain k where "stat fs q = Inr k"
      by (cases "stat fs q") (simp_all add: path_exists_def)
    from first_seen_complete[OF b(1,2) this, of "{}"]
    show "q \<in> (fst \<circ> snd) ` set (first_seen fs proj agents {})" by simp
  qed
next
  show "distinct (wlog (fst (sync_context_files agents proj now fs)))"
    by (rule sync_context_files_trace)
qed

text \<open>
  Claim C10. The candidates are listed in the order of the installed agents, and the winner
  is the first candidate of maximal modification time: whenever every candidate before that
  of \<open>a\<close> is strictly older and none after it is newer, the maximum the code takes is the
  candidate of \<open>a\<close>, the file read is its file (an exception of the read ends the call with
  nothing written), and a call that returns reports \<open>a\<close> as the agent it synced from.
\<close>

theorem context_tie_first_agent:
  "subseq (map fst (collect_context_files fs proj agents [] [])) agents
   \<and> (\<forall>pre a p m post.
        collect_context_files fs proj agents [] [] = pre @ (a, p, m) # post
        \<longrightarrow> (\<forall>x\<in>set pre. snd (snd x) < m) \<longrightarrow> (\<forall>x\<in>set post. snd (snd x) \<le> m)
        \<longrightarrow> (\<exists>c cs. collect_context_files fs proj agents [] [] = c # cs
                  \<and> max_from (\<lambda>k. snd (snd k)) c cs = (a, p, m))
            \<and> (\<forall>e. read_text fs p = Inl e \<longrightarrow>
                  sync_context_files agents proj now fs = (\<lparr>files = fs, wlog = []\<rparr>, Inl e))
            \<and> (\<forall>w r. sync_context_files agents proj now fs = (w, Inr r) \<longrightarrow>
                  (\<exists>n c. r = SyncedFrom a n c)))"
proof (intro conjI allI impI)
  show "subseq (map fst (collect_context_files fs proj agents [] [])) agents"
    unfolding candidates_eq by (rule first_seen_subseq)
next
  fix pre a p m post
  assume h: "collect_context_files fs proj agents [] [] = pre @ (a, p, m) # post"
    "\<forall>x\<in>set pre. snd (snd x) < m" "\<forall>x\<in>set post. snd (snd x) \<le> m"
  from winner_is_first_max[OF h] obtain c cs where
    ccs: "collect_context_files fs proj agents [] [] = c # cs"
    and mx: "max_from (\<lambda>k. snd (snd k)) c cs = (a, p, m)" by blast
  from ccs mx show "\<exists>c cs. collect_context_files fs proj agents [] [] = c # cs
                  \<and> max_from (\<lambda>k. snd (snd k)) c cs = (a, p, m)" by blast
  from sync_context_files_run[OF ccs, of now] mx
  have e: "\<forall>e. read_text fs p = Inl e \<longrightarrow>
               sync_context_files agents proj now fs = (\<lparr>files = fs, wlog = []\<rparr>, Inl e)"
    and r: "\<forall>cnt. read_text fs p = Inr cnt \<longrightarrow>
               (\<exists>w st n cc err.
                  write_targets proj p (extract_markdown_body cnt) now agents
                    (\<lparr>files = fs, wlog = []\<rparr>, [], 0, 0) = ((w, st, n, cc), err)
                  \<and> sync_context_files agents proj now fs
                      = (w, case err of Some e \<Rightarrow> Inl e | None \<Rightarrow> Inr (SyncedFrom a n cc)))"
    by auto
  { fix e assume "read_text fs p = Inl e"
    with e show "sync_context_files agents proj now fs = (\<lparr>files = fs, wlog = []\<rparr>, Inl e)"
      by simp }
  { fix w r' assume s: "sync_context_files agents proj now fs = (w, Inr r')"
    show "\<exists>n c. r' = SyncedFrom a n c"
    proof (cases "read_text fs p")
      case (Inl x)
      with e s show ?thesis by simp
    next
      case (Inr cnt)
      with r obtain w' n cc err where
        "sync_context_files agents proj now fs
           = (w', case err of Some e \<Rightarrow> Inl e | None \<Rightarrow> Inr (SyncedFrom a n cc))" by blast
      with s show ?thesis by (cases err) auto
    qed }
qed

lemmas context_sync_simps = sync_context_files_def context_path_def AGENT_CONTEXT_PATHS_def
  read_text_def path_exists_def extract_markdown_body_def py_find_def lstrip_nl_def
  format_context_for_agent_def Let_def numeral_2_eq_2 numeral_3_eq_3

theorem context_alias_dedup_witness:
  "collect_context_files (Dir 0 [(''p'', Dir 0 [(''AGENTS.md'', File (Text ''ctx'') 5)])]) [''p'']
      [''opencode'', ''codex'', ''claude''] [] [] = [(''opencode'', [''p'', ''AGENTS.md''], 5)]
   \<and> sync_context_files [''opencode'', ''codex'', ''claude''] [''p''] (\<lambda>k. 7)
        (Dir 0 [(''p'', Dir 0 [(''AGENTS.md'', File (Text ''ctx'') 5)])])
      = (\<lparr>files = Dir 0 [(''p'', Dir 7 [(''AGENTS.md'', File (Text ''ctx'') 5),
                                          (''CLAUDE.md'', File (Text ''ctx'') 7)])],
          wlog = [[''p'', ''CLAUDE.md'']]\<rparr>, Inr (SyncedFrom ''opencode'' 1 1))
   \<and> distinct (map (fst \<circ> snd)
        (collect_context_files (Dir 0 [(''p'', Dir 0 [(''AGENTS.md'', File (Text ''ctx'') 5)])]) [''p'']
           [''opencode'', ''codex'', ''claude''] [] []))
   \<and> distinct (wlog (fst (sync_context_files [''opencode'', ''codex'', ''claude''] [''p''] (\<lambda>k. 7)
        (Dir 0 [(''p'', Dir 0 [(''AGENTS.md'', File (Text ''ctx'') 5)])]))))"
proof -
  let ?fs = "Dir 0 [(''p'', Dir 0 [(''AGENTS.md'', File (Text ''ctx'') 5)])]"
  have c: "collect_context_files ?fs [''p''] [''opencode'', ''codex'', ''claude''] [] []
      = [(''opencode'', [''p'', ''AGENTS.md''], 5)]"
    by (simp add: context_sync_simps)
  have s: "sync_context_files [''opencode'', ''codex'', ''claude''] [''p''] (\<lambda>k. 7) ?fs
      = (\<lparr>files = Dir 0 [(''p'', Dir 7 [(''AGENTS.md'', File (Text ''ctx'') 5),
                                          (''CLAUDE.md'', File (Text ''ctx'') 7)])],
          wlog = [[''p'', ''CLAUDE.md'']]\<rparr>, Inr (SyncedFrom ''opencode'' 1 1))"
    by (simp add: context_sync_simps)
  note T = context_alias_dedup[of ?fs "[''p'']" "[''opencode'', ''codex'', ''claude'']" "\<lambda>k. 7"]
  from T have d1: "distinct (map (fst \<circ> snd)
        (collect_context_files ?fs [''p''] [''opencode'', ''codex'', ''claude''] [] []))"
    by (rule conjunct1)
  from T have d2: "distinct (wlog (fst (sync_context_files [''opencode'', ''codex'', ''claude'']
        [''p''] (\<lambda>k. 7) ?fs)))"
    by (elim conjE)
  from c s d1 d2 show ?thesis by (intro conjI)
qed

theorem context_tie_first_agent_witness:
  "collect_context_files
      (Dir 0 [(''CLAUDE.md'', File (Text ''a'') 4), (''GEMINI.md'', File (Text ''b'') 4),
              (''QWEN.md'', File (Text ''c'') 2)])
      [] [''qwen'', ''gemini'', ''claude''] [] []
     = [(''qwen'', [''QWEN.md''], 2)] @ (''gemini'', [''GEMINI.md''], 4) # [(''claude'', [''CLAUDE.md''], 4)]
   \<and> sync_context_files [''qwen'', ''gemini'', ''claude''] [] (\<lambda>k. 7)
        (Dir 0 [(''CLAUDE.md'', File (Text ''a'') 4), (''GEMINI.md'', File (Text ''b'') 4),
                (''QWEN.md'', File (Text ''c'') 2)])
      = (\<lparr>files = Dir 0 [(''CLAUDE.md'', File (Text ''b'') 7), (''GEMINI.md'', File (Text ''b'') 4),
                          (''QWEN.md'', File (Text ''b'') 7)],
          wlog = [[''QWEN.md''], [''CLAUDE.md'']]\<rparr>, Inr (SyncedFrom ''gemini'' 2 0))
   \<and> (\<exists>c cs. collect_context_files
      (Dir 0 [(''CLAUDE.md'', File (Text ''a'') 4), (''GEMINI.md'', File (Text ''b'') 4),
              (''QWEN.md'', File (Text ''c'') 2)])
      [] [''qwen'', ''gemini'', ''claude''] [] [] = c # cs
        \<and> max_from (\<lambda>k. snd (snd k)) c cs = (''gemini'', [''GEMINI.md''], 4))"
proof -
  let ?fs = "Dir 0 [(''CLAUDE.md'', File (Text ''a'') 4), (''GEMINI.md'', File (Text ''b'') 4),
              (''QWEN.md'', File (Text ''c'') 2)]"
  have c: "collect_context_files ?fs [] [''qwen'', ''gemini'', ''claude''] [] []
     = [(''qwen'', [''QWEN.md''], 2)] @ (''gemini'', [''GEMINI.md''], 4) # [(''claude'', [''CLAUDE.md''], 4)]"
    by (simp add: context_sync_simps)
  have s: "sync_context_files [''qwen'', ''gemini'', ''claude''] [] (\<lambda>k. 7) ?fs
      = (\<lparr>files = Dir 0 [(''CLAUDE.md'', File (Text ''b'') 7), (''GEMINI.md'', File (Text ''b'') 4),
                          (''QWEN.md'', File (Text ''b'') 7)],
          wlog = [[''QWEN.md''], [''CLAUDE.md'']]\<rparr>, Inr (SyncedFrom ''gemini'' 2 0))"
    by (simp add: context_sync_simps)
  have l: "\<forall>x\<in>set [(''qwen'', [''QWEN.md''], 2::int)]. snd (snd x) < 4" by simp
  have r: "\<forall>x\<in>set [(''claude'', [''CLAUDE.md''], 4::int)]. snd (snd x) \<le> 4" by simp
  note T = context_tie_first_agent[of ?fs "[]" "[''qwen'', ''gemini'', ''claude'']" "\<lambda>k. 7",
      THEN conjunct2, THEN spec[of _ "[(''qwen'', [''QWEN.md''], 2)]"], THEN spec[of _ "''gemini''"],
      THEN spec[of _ "[''GEMINI.md'']"], THEN spec[of _ "4"],
      THEN spec[of _ "[(''claude'', [''CLAUDE.md''], 4)]"], THEN mp, OF c, THEN mp, OF l,
      THEN mp, OF r, THEN conjunct1]
  from c s T show ?thesis by (intro conjI)
qed







lemma read_text_Inr:
  "read_text fs p = Inr cnt \<Longrightarrow> \<exists>s m. stat fs p = Inr (File (Text s) m) \<and> cnt = universal_newlines s"
  by (auto simp: read_text_def split: sum.splits node.splits data.splits)

lemma sync_context_files_returns:
  assumes ccs: "collect_context_files fs proj agents [] [] = c # cs"
    and mx: "max_from (\<lambda>k. snd (snd k)) c cs = (a, p, m)"
    and ret: "sync_context_files agents proj now fs = (w, Inr r)"
  shows "\<exists>s st n cc. stat fs p = Inr (File (Text s) m) \<and> a \<in> set agents \<and> context_path proj a = Some p
       \<and> write_targets proj p (extract_markdown_body (universal_newlines s)) now agents
            (\<lparr>files = fs, wlog = []\<rparr>, [], 0, 0) = ((w, st, n, cc), None)
       \<and> r = SyncedFrom a n cc"
proof -
  from sync_context_files_run[OF ccs, of now] mx
  have mem: "(a, p, m) \<in> set (c # cs)" and ain: "a \<in> set agents" and cp: "context_path proj a = Some p"
    and e: "\<forall>e. read_text fs p = Inl e \<longrightarrow>
               sync_context_files agents proj now fs = (\<lparr>files = fs, wlog = []\<rparr>, Inl e)"
    and rr: "\<forall>cnt. read_text fs p = Inr cnt \<longrightarrow>
               (\<exists>w st n cc err.
                  write_targets proj p (extract_markdown_body cnt) now agents
                    (\<lparr>files = fs, wlog = []\<rparr>, [], 0, 0) = ((w, st, n, cc), err)
                  \<and> sync_context_files agents proj now fs
                      = (w, case err of Some e \<Rightarrow> Inl e | None \<Rightarrow> Inr (SyncedFrom a n cc)))"
    by auto
  from mem ccs have "(a, p, m) \<in> set (first_seen fs proj agents {})" by (simp add: candidates_eq)
  from first_seen_mem[OF this] obtain nd where nd: "stat fs p = Inr nd" "st_mtime nd = m" by auto
  obtain cnt where cnt: "read_text fs p = Inr cnt"
    using e ret by (cases "read_text fs p") auto
  from read_text_Inr[OF cnt] obtain s m' where s: "stat fs p = Inr (File (Text s) m')"
    "cnt = universal_newlines s" by blast
  with nd have m': "m' = m" by auto
  from rr cnt obtain w' st n cc err where
    wt: "write_targets proj p (extract_markdown_body cnt) now agents
                    (\<lparr>files = fs, wlog = []\<rparr>, [], 0, 0) = ((w', st, n, cc), err)"
    and sy: "sync_context_files agents proj now fs
                      = (w', case err of Some e \<Rightarrow> Inl e | None \<Rightarrow> Inr (SyncedFrom a n cc))"
    by blast
  from sy ret have "w' = w" "err = None" "r = SyncedFrom a n cc" by (cases err; simp)+
  with wt s m' ain cp show ?thesis by auto
qed



lemma targets_card:
  assumes "a \<in> set agents" "context_path proj a = Some p"
  shows "set (new_targets proj p agents {}) = {q. \<exists>b\<in>set agents. context_path proj b = Some q} - {p}"
  by (auto simp: new_targets_mem)

lemma finite_context_paths: "finite {q. \<exists>b\<in>set agents. context_path proj b = Some q}"
proof -
  have "{q. \<exists>b\<in>set agents. context_path proj b = Some q}
          \<subseteq> (\<lambda>b. the (context_path proj b)) ` set agents" by force
  then show ?thesis by (rule finite_subset) simp
qed

lemma new_targets_length:
  assumes "a \<in> set agents" "context_path proj a = Some p"
  shows "length (new_targets proj p agents {})
           = card {q. \<exists>b\<in>set agents. context_path proj b = Some q} - 1"
proof -
  have "length (new_targets proj p agents {}) = card (set (new_targets proj p agents {}))"
    by (simp add: distinct_card[OF new_targets_distinct])
  also have "\<dots> = card ({q. \<exists>b\<in>set agents. context_path proj b = Some q} - {p})"
    by (simp add: targets_card[OF assms])
  also have "\<dots> = card {q. \<exists>b\<in>set agents. context_path proj b = Some q} - 1"
    using assms finite_context_paths[of agents proj] by (subst card_Diff_singleton) auto
  finally show ?thesis .
qed

text \<open>
  Claim C2, amended. When a run returns, a second run on the files it left returns too,
  creates nothing, and writes as many files as the first: none when no installed agent had a
  context file, otherwise every distinct context path of the installed agents but the path
  of its own winner, each once.
\<close>

theorem context_second_run_rewrites:
  assumes "sync_context_files agents proj now1 fs = (w1, Inr r1)"
  shows "\<exists>w2 r2. sync_context_files agents proj now2 (files w1) = (w2, Inr r2)
    \<and> length (wlog w2) = length (wlog w1)
    \<and> (collect_context_files fs proj agents [] [] = [] \<longrightarrow>
         r1 = NothingToSync \<and> r2 = NothingToSync \<and> wlog w1 = [] \<and> wlog w2 = [])
    \<and> (collect_context_files fs proj agents [] [] \<noteq> [] \<longrightarrow>
         (\<exists>a1 p1 n1 c1 a2 p2 n2.
            r1 = SyncedFrom a1 n1 c1 \<and> a1 \<in> set agents \<and> context_path proj a1 = Some p1
          \<and> r2 = SyncedFrom a2 n2 0 \<and> a2 \<in> set agents \<and> context_path proj a2 = Some p2
          \<and> distinct (wlog w1) \<and> n1 = length (wlog w1)
          \<and> set (wlog w1) = {q. \<exists>b\<in>set agents. context_path proj b = Some q} - {p1}
          \<and> distinct (wlog w2) \<and> n2 = length (wlog w2)
          \<and> set (wlog w2) = {q. \<exists>b\<in>set agents. context_path proj b = Some q} - {p2}))"
proof (cases "collect_context_files fs proj agents [] []")
  case Nil
  from sync_context_files_empty[OF Nil, of now1] assms
  have w1: "w1 = \<lparr>files = fs, wlog = []\<rparr>" and r1: "r1 = NothingToSync" by simp_all
  have s2: "sync_context_files agents proj now2 (files w1) = (\<lparr>files = fs, wlog = []\<rparr>, Inr NothingToSync)"
    using sync_context_files_empty[OF Nil, of now2] w1 by simp
  have B: "length (wlog \<lparr>files = fs, wlog = []\<rparr>) = length (wlog w1)" using w1 by simp
  have C: "collect_context_files fs proj agents [] [] = [] \<longrightarrow>
         r1 = NothingToSync \<and> NothingToSync = NothingToSync \<and> wlog w1 = []
         \<and> wlog \<lparr>files = fs, wlog = []\<rparr> = []"
    using r1 w1 by simp
  have D: "collect_context_files fs proj agents [] [] \<noteq> [] \<longrightarrow>
         (\<exists>a1 p1 n1 c1 a2 p2 n2.
            r1 = SyncedFrom a1 n1 c1 \<and> a1 \<in> set agents \<and> context_path proj a1 = Some p1
          \<and> NothingToSync = SyncedFrom a2 n2 0 \<and> a2 \<in> set agents \<and> context_path proj a2 = Some p2
          \<and> distinct (wlog w1) \<and> n1 = length (wlog w1)
          \<and> set (wlog w1) = {q. \<exists>b\<in>set agents. context_path proj b = Some q} - {p1}
          \<and> distinct (wlog \<lparr>files = fs, wlog = []\<rparr>)
          \<and> n2 = length (wlog \<lparr>files = fs, wlog = []\<rparr>)
          \<and> set (wlog \<lparr>files = fs, wlog = []\<rparr>)
              = {q. \<exists>b\<in>set agents. context_path proj b = Some q} - {p2})"
    using Nil by simp
  show ?thesis
    by (rule exI[of _ "\<lparr>files = fs, wlog = []\<rparr>"], rule exI[of _ NothingToSync], intro conjI)
       (rule s2 B C D)+
next
  case (Cons c cs)
  obtain a1 p1 m1 where mx: "max_from (\<lambda>k. snd (snd k)) c cs = (a1, p1, m1)"
    by (cases "max_from (\<lambda>k. snd (snd k)) c cs") auto
  from sync_context_files_returns[OF Cons mx assms] obtain s st n1 c1 where
    s: "stat fs p1 = Inr (File (Text s) m1)" and a1: "a1 \<in> set agents" "context_path proj a1 = Some p1"
    and wt: "write_targets proj p1 (extract_markdown_body (universal_newlines s)) now1 agents
            (\<lparr>files = fs, wlog = []\<rparr>, [], 0, 0) = ((w1, st, n1, c1), None)"
    and r1: "r1 = SyncedFrom a1 n1 c1" by blast
  from write_targets_trace[OF wt] have l1: "wlog w1 = new_targets proj p1 agents {}"
    and n1: "n1 = length (wlog w1)" by auto
  have keep: "stat (files w1) p1 = Inr (File (Text s) m1)"
    using write_targets_files[OF wt, of p1 "Text s" m1] s by (simp add: new_targets_mem)
  have texts: "\<exists>y t. stat (files w1) q = Inr (File (Text y) t)"
    if "b \<in> set agents" "context_path proj b = Some q" for b q
  proof (cases "q = p1")
    case True
    with keep show ?thesis by blast
  next
    case False
    from write_targets_written[OF wt that False] show ?thesis by auto
  qed
  have "p1 \<in> (fst \<circ> snd) ` set (first_seen (files w1) proj agents {})"
    by (rule first_seen_complete[OF a1 keep]) simp
  then have "collect_context_files (files w1) proj agents [] [] \<noteq> []"
    unfolding candidates_eq by auto
  then obtain c' cs' where ccs2: "collect_context_files (files w1) proj agents [] [] = c' # cs'"
    by (meson list.exhaust)
  from sync_context_files_run[OF ccs2, of now2] obtain a2 p2 m2 where
    a2: "a2 \<in> set agents" "context_path proj a2 = Some p2"
    and rr: "\<forall>cnt. read_text (files w1) p2 = Inr cnt \<longrightarrow>
               (\<exists>w st n cc err.
                  write_targets proj p2 (extract_markdown_body cnt) now2 agents
                    (\<lparr>files = files w1, wlog = []\<rparr>, [], 0, 0) = ((w, st, n, cc), err)
                  \<and> sync_context_files agents proj now2 (files w1)
                      = (w, case err of Some e \<Rightarrow> Inl e | None \<Rightarrow> Inr (SyncedFrom a2 n cc)))"
    by blast
  from texts[OF a2] obtain y t where y: "stat (files w1) p2 = Inr (File (Text y) t)" by blast
  then have rd: "read_text (files w1) p2 = Inr (universal_newlines y)" by (simp add: read_text_def)
  have allf: "\<forall>b\<in>set agents. \<forall>q. context_path proj b = Some q \<longrightarrow> q \<noteq> p2 \<longrightarrow>
       (\<exists>y m. stat (files \<lparr>files = files w1, wlog = []\<rparr>) q = Inr (File y m))"
    using texts by (simp, blast)
  from write_targets_ok[OF allf, of "extract_markdown_body (universal_newlines y)" now2 "[]" 0 0]
  obtain w2 st2 n2 where wt2: "write_targets proj p2 (extract_markdown_body (universal_newlines y)) now2
      agents (\<lparr>files = files w1, wlog = []\<rparr>, [], 0, 0) = ((w2, st2, n2, 0), None)" by blast
  from rr rd wt2 have s2: "sync_context_files agents proj now2 (files w1) = (w2, Inr (SyncedFrom a2 n2 0))"
    by auto
  from write_targets_trace[OF wt2] have l2: "wlog w2 = new_targets proj p2 agents {}"
    and n2: "n2 = length (wlog w2)" by auto
  have len: "length (wlog w2) = length (wlog w1)"
    unfolding l1 l2 new_targets_length[OF a1] new_targets_length[OF a2] ..
  have C: "collect_context_files fs proj agents [] [] = [] \<longrightarrow>
         r1 = NothingToSync \<and> SyncedFrom a2 n2 0 = NothingToSync \<and> wlog w1 = [] \<and> wlog w2 = []"
    using Cons by simp
  have D: "collect_context_files fs proj agents [] [] \<noteq> [] \<longrightarrow>
         (\<exists>a1 p1 n1 c1 a2' p2 n2'.
            r1 = SyncedFrom a1 n1 c1 \<and> a1 \<in> set agents \<and> context_path proj a1 = Some p1
          \<and> SyncedFrom a2 n2 0 = SyncedFrom a2' n2' 0 \<and> a2' \<in> set agents
          \<and> context_path proj a2' = Some p2
          \<and> distinct (wlog w1) \<and> n1 = length (wlog w1)
          \<and> set (wlog w1) = {q. \<exists>b\<in>set agents. context_path proj b = Some q} - {p1}
          \<and> distinct (wlog w2) \<and> n2' = length (wlog w2)
          \<and> set (wlog w2) = {q. \<exists>b\<in>set agents. context_path proj b = Some q} - {p2})"
  proof -
    have f1: "distinct (wlog w1)" unfolding l1 by (rule new_targets_distinct)
    have f2: "set (wlog w1) = {q. \<exists>b\<in>set agents. context_path proj b = Some q} - {p1}"
      unfolding l1 by (rule targets_card[OF a1])
    have f3: "distinct (wlog w2)" unfolding l2 by (rule new_targets_distinct)
    have f4: "set (wlog w2) = {q. \<exists>b\<in>set agents. context_path proj b = Some q} - {p2}"
      unfolding l2 by (rule targets_card[OF a2])
    have f5: "SyncedFrom a2 n2 0 = SyncedFrom a2 n2 0" by simp
    show ?thesis
      by (rule impI, rule exI[of _ a1], rule exI[of _ p1], rule exI[of _ n1], rule exI[of _ c1],
          rule exI[of _ a2], rule exI[of _ p2], rule exI[of _ n2], intro conjI)
         (rule r1 a1 a2 n1 n2 f1 f2 f3 f4 f5)+
  qed
  show ?thesis
    by (rule exI[of _ w2], rule exI[of _ "SyncedFrom a2 n2 0"], intro conjI)
       (rule s2 len C D)+
qed

lemma context_sync_eval:
  "sync_context_files [''claude'', ''gemini''] [] (\<lambda>k. 2) (Dir 0 [(''CLAUDE.md'', File (Text ''ctx'') 1)])
     = (\<lparr>files = Dir 2 [(''CLAUDE.md'', File (Text ''ctx'') 1), (''GEMINI.md'', File (Text ''ctx'') 2)],
         wlog = [[''GEMINI.md'']]\<rparr>, Inr (SyncedFrom ''claude'' 1 1))"
  "sync_context_files [''claude'', ''gemini''] [] (\<lambda>k. 3)
       (Dir 2 [(''CLAUDE.md'', File (Text ''ctx'') 1), (''GEMINI.md'', File (Text ''ctx'') 2)])
     = (\<lparr>files = Dir 2 [(''CLAUDE.md'', File (Text ''ctx'') 3), (''GEMINI.md'', File (Text ''ctx'') 2)],
         wlog = [[''CLAUDE.md'']]\<rparr>, Inr (SyncedFrom ''gemini'' 1 0))"
  by (simp_all add: context_sync_simps)

theorem context_second_run_rewrites_witness:
  "sync_context_files [''claude'', ''gemini''] [] (\<lambda>k. 2) (Dir 0 [(''CLAUDE.md'', File (Text ''ctx'') 1)])
     = (\<lparr>files = Dir 2 [(''CLAUDE.md'', File (Text ''ctx'') 1), (''GEMINI.md'', File (Text ''ctx'') 2)],
         wlog = [[''GEMINI.md'']]\<rparr>, Inr (SyncedFrom ''claude'' 1 1))
   \<and> (\<exists>w2 r2. sync_context_files [''claude'', ''gemini''] [] (\<lambda>k. 3)
          (Dir 2 [(''CLAUDE.md'', File (Text ''ctx'') 1), (''GEMINI.md'', File (Text ''ctx'') 2)])
            = (w2, Inr r2)
        \<and> length (wlog w2) = 1)"
proof -
  note e = context_sync_eval(1)
  from context_second_run_rewrites[OF e, of "\<lambda>k. 3"]
  have "\<exists>w2 r2. sync_context_files [''claude'', ''gemini''] [] (\<lambda>k. 3)
          (Dir 2 [(''CLAUDE.md'', File (Text ''ctx'') 1), (''GEMINI.md'', File (Text ''ctx'') 2)])
            = (w2, Inr r2)
        \<and> length (wlog w2) = 1"
    by (elim exE conjE) (intro exI conjI, simp, simp)
  with e show ?thesis by (rule conjI)
qed

text \<open>
  The claim as stated fails: with \<open>CLAUDE.md\<close> alone present, the first run creates
  \<open>GEMINI.md\<close>, and the second run, on the files the first run left, writes \<open>CLAUDE.md\<close>.
\<close>

theorem context_second_run_counterexample:
  "sync_context_files [''claude'', ''gemini''] [] (\<lambda>k. 2) (Dir 0 [(''CLAUDE.md'', File (Text ''ctx'') 1)])
     = (\<lparr>files = Dir 2 [(''CLAUDE.md'', File (Text ''ctx'') 1), (''GEMINI.md'', File (Text ''ctx'') 2)],
         wlog = [[''GEMINI.md'']]\<rparr>, Inr (SyncedFrom ''claude'' 1 1))
   \<and> sync_context_files [''claude'', ''gemini''] [] (\<lambda>k. 3)
       (Dir 2 [(''CLAUDE.md'', File (Text ''ctx'') 1), (''GEMINI.md'', File (Text ''ctx'') 2)])
     = (\<lparr>files = Dir 2 [(''CLAUDE.md'', File (Text ''ctx'') 3), (''GEMINI.md'', File (Text ''ctx'') 2)],
         wlog = [[''CLAUDE.md'']]\<rparr>, Inr (SyncedFrom ''gemini'' 1 0))
   \<and> wlog (fst (sync_context_files [''claude'', ''gemini''] [] (\<lambda>k. 3)
       (Dir 2 [(''CLAUDE.md'', File (Text ''ctx'') 1), (''GEMINI.md'', File (Text ''ctx'') 2)])))
       \<noteq> []"
  using context_sync_eval by simp

section \<open>Properties of the JSON merge\<close>

lemma deep_merge_step:
  "deep_merge result ((key, v) # rest)
     = deep_merge (AList.update key (merge_entry result key v) result) rest"
  by (simp add: merge_entry_def split: option.splits json.splits)

lemma deep_merge_lookup:
  "distinct (map fst upd) \<Longrightarrow>
   map_of (deep_merge result upd) k
     = (case map_of upd k of None \<Rightarrow> map_of result k | Some v \<Rightarrow> Some (merge_entry result k v))"
proof (induction upd arbitrary: result)
  case Nil
  show ?case by simp
next
  case (Cons e rest)
  obtain key v where e: "e = (key, v)" by (cases e)
  from Cons.prems e have d: "distinct (map fst rest)" and nk: "key \<notin> fst ` set rest" by auto
  let ?r = "AList.update key (merge_entry result key v) result"
  have step: "deep_merge result (e # rest) = deep_merge ?r rest"
    unfolding e by (rule deep_merge_step)
  show ?case
  proof (cases "k = key")
    case True
    from nk have "map_of rest key = None" by (simp add: map_of_eq_None_iff)
    with Cons.IH[OF d, of ?r] True e show ?thesis
      unfolding step by (simp add: update_conv')
  next
    case False
    have "merge_entry ?r k = merge_entry result k"
      using False by (auto simp: merge_entry_def update_conv' fun_eq_iff)
    with Cons.IH[OF d, of ?r] False e show ?thesis
      unfolding step by (simp add: update_conv' del: deep_merge.simps split: option.splits)
  qed
qed

lemma deep_merge_keys:
  "fst ` set (deep_merge result upd) = fst ` set result \<union> fst ` set upd"
proof (induction upd arbitrary: result)
  case Nil
  show ?case by simp
next
  case (Cons e rest)
  obtain key v where e: "e = (key, v)" by (cases e)
  have "fst ` set (AList.update key (merge_entry result key v) result)
          = insert key (fst ` set result)"
    using dom_update[of key "merge_entry result key v" result] by simp
  with Cons.IH[of "AList.update key (merge_entry result key v) result"] show ?case
    unfolding e deep_merge_step by auto
qed

text \<open>
  Claim C7. The deep merge is as the claim says, and a missing file and a text that is not
  valid JSON give the new content; but a file that is not valid JSON because its bytes are
  not UTF-8 makes the call raise \<open>UnicodeDecodeError\<close>, whatever the parser: the exception is
  not among those the function catches.
\<close>

theorem merge_json_undecodable_raises:
  "merge_json_files loads (Dir 0 [(''settings.json'', File (Binary [CHR 0xFF]) 1)])
      [''settings.json''] [(''a'', JNumber (1::int))] = Inl UnicodeDecodeError
   \<and> merge_json_files (\<lambda>s. None) (Dir 0 [(''settings.json'', File (Text ''{'') 1)])
      [''settings.json''] [(''a'', JNumber (1::int))] = Inr (JObject [(''a'', JNumber 1)])
   \<and> merge_json_files loads (Dir 0 []) [''settings.json''] [(''a'', JNumber (1::int))]
      = Inr (JObject [(''a'', JNumber 1)])"
  by (simp add: merge_json_files_def)

section \<open>Properties of the path rewriting\<close>

lemma sub_path_matchfree: "matchfree ok P prev s \<Longrightarrow> sub_path ok P prev s = s"
  by (induction s arbitrary: prev) auto

lemma startswith_sub_path:
  "CHR ''.'' \<notin> set pat \<Longrightarrow> startswith (sub_path ok P prev s) pat \<Longrightarrow> startswith s pat"
proof (induction pat arbitrary: s prev)
  case Nil
  show ?case by simp
next
  case (Cons p ps)
  show ?case
  proof (cases s)
    case Nil
    with Cons.prems show ?thesis by simp
  next
    case (Cons c cs)
    show ?thesis
    proof (cases "ok prev \<and> (startswith (c # cs) (''/'' @ P @ ''/'') \<or> startswith (c # cs) (P @ ''/''))")
      case True
      then have "hd (sub_path ok P prev (c # cs)) = CHR ''.''" by auto
      moreover have "sub_path ok P prev (c # cs) \<noteq> []" using True by auto
      ultimately have "p = CHR ''.''" using Cons.prems(2) Cons
        by (cases "sub_path ok P prev (c # cs)") auto
      with Cons.prems(1) show ?thesis by simp
    next
      case False
      then have "sub_path ok P prev (c # cs) = c # sub_path ok P (Some c) cs" by auto
      with Cons.prems(2) Cons have "c = p" "startswith (sub_path ok P (Some c) cs) ps" by auto
      with Cons.IH[of "Some c" cs] Cons.prems(1) Cons show ?thesis by simp
    qed
  qed
qed

lemma matchfree_drop:
  "matchfree ok Q prev s \<Longrightarrow> startswith s pat \<Longrightarrow> pat \<noteq> [] \<Longrightarrow>
     matchfree ok Q (Some (last pat)) (drop (length pat) s)"
proof (induction pat arbitrary: s prev)
  case Nil
  then show ?case by simp
next
  case (Cons p ps)
  from Cons.prems(2) obtain cs where s: "s = p # cs" and sw: "startswith cs ps"
    by (cases s) auto
  from Cons.prems(1) s have mf: "matchfree ok Q (Some p) cs" by simp
  show ?case
  proof (cases "ps = []")
    case True
    with mf s show ?thesis by simp
  next
    case False
    from Cons.IH[OF mf sw False] False s show ?thesis by simp
  qed
qed

lemma matchfree_inert:
  "\<forall>c\<in>set pre. \<not> ok (Some c) \<Longrightarrow> pre \<noteq> [] \<Longrightarrow> matchfree ok Q (Some (last pre)) rest \<Longrightarrow>
     matchfree ok Q (Some (hd pre)) (tl pre @ rest)"
proof (induction pre)
  case Nil
  then show ?case by simp
next
  case (Cons x xs)
  show ?case
  proof (cases xs)
    case Nil
    with Cons.prems show ?thesis by simp
  next
    case (Cons y ys)
    with Cons.IH Cons.prems show ?thesis by simp
  qed
qed

lemma startswith_dot: "CHR ''.'' \<notin> set pat \<Longrightarrow> pat \<noteq> [] \<Longrightarrow> \<not> startswith (CHR ''.'' # t) pat"
  by (cases pat) auto

lemma matchfree_inserted:
  assumes inert: "\<forall>c\<in>set (''.specforge/'' @ P @ ''/''). \<not> ok (Some c)"
    and nodot: "CHR ''.'' \<notin> set Q"
    and rest: "matchfree ok Q (Some (CHR ''/'')) rest"
  shows "matchfree ok Q prev (''.specforge/'' @ P @ ''/'' @ rest)"
proof -
  let ?pre = "''.specforge/'' @ P @ ''/''"
  have "matchfree ok Q (Some (hd ?pre)) (tl ?pre @ rest)"
    by (rule matchfree_inert[OF inert]) (use rest in simp_all)
  then have tl: "matchfree ok Q (Some (CHR ''.'')) (''specforge/'' @ P @ ''/'' @ rest)" by simp
  have "\<not> startswith (CHR ''.'' # ''specforge/'' @ P @ ''/'' @ rest) (''/'' @ Q @ ''/'')"
    by simp
  moreover have "\<not> startswith (CHR ''.'' # ''specforge/'' @ P @ ''/'' @ rest) (Q @ ''/'')"
    by (rule startswith_dot) (use nodot in simp_all)
  ultimately show ?thesis using tl by simp
qed

lemma matchfree_sub_path_keep:
  assumes nodot: "CHR ''.'' \<notin> set Q"
  shows "\<forall>c\<in>set (''.specforge/'' @ P @ ''/''). \<not> ok' (Some c) \<Longrightarrow>
         matchfree ok' Q prev s \<Longrightarrow> matchfree ok' Q prev (sub_path ok P prev s)"
proof (induction ok P prev s rule: sub_path.induct)
  case (1 ok P prev)
  show ?case by simp
next
  case (2 ok P prev c cs)
  note inert = "2.prems"(1) and mf = "2.prems"(2)
  let ?p1 = "''/'' @ P @ ''/''" and ?p2 = "P @ ''/''"
  show ?case
  proof (cases "ok prev \<and> startswith (c # cs) ?p1")
    case True
    from matchfree_drop[OF mf, of ?p1] True
    have "matchfree ok' Q (Some (CHR ''/'')) (drop (length P + 2) (c # cs))" by simp
    with "2.IH"(1) True inert
    have "matchfree ok' Q (Some (CHR ''/'')) (sub_path ok P (Some (CHR ''/'')) (drop (length P + 2) (c # cs)))"
      by simp
    note ih = this
    have o: "sub_path ok P prev (c # cs) = ''.specforge/'' @ P @ ''/'' @ sub_path ok P (Some (CHR ''/'')) (drop (length P + 2) (c # cs))"
      using True by simp
    show ?thesis by (subst o) (rule matchfree_inserted[OF inert nodot ih])
  next
    case F1: False
    show ?thesis
    proof (cases "ok prev \<and> startswith (c # cs) ?p2")
      case True
      from matchfree_drop[OF mf, of ?p2] True
      have "matchfree ok' Q (Some (CHR ''/'')) (drop (length P + 1) (c # cs))" by simp
      with "2.IH"(2) True F1 inert
      have "matchfree ok' Q (Some (CHR ''/'')) (sub_path ok P (Some (CHR ''/'')) (drop (length P + 1) (c # cs)))"
        by simp
      note ih = this
      have o: "sub_path ok P prev (c # cs) = ''.specforge/'' @ P @ ''/'' @ sub_path ok P (Some (CHR ''/'')) (drop (length P + 1) (c # cs))"
        using True F1 by auto
      show ?thesis by (subst o) (rule matchfree_inserted[OF inert nodot ih])
    next
      case F2: False
      from F1 F2 have out: "sub_path ok P prev (c # cs) = c # sub_path ok P (Some c) cs" by auto
      from mf have mfc: "matchfree ok' Q (Some c) cs"
        and nm: "\<not> (ok' prev \<and> (startswith (c # cs) (''/'' @ Q @ ''/'') \<or> startswith (c # cs) (Q @ ''/'')))"
        by simp_all
      from "2.IH"(3) F1 F2 mfc inert have t: "matchfree ok' Q (Some c) (sub_path ok P (Some c) cs)"
        by simp
      have pb: "startswith (c # cs) pat" if "startswith (c # sub_path ok P (Some c) cs) pat"
        "CHR ''.'' \<notin> set pat" for pat
        using startswith_sub_path[OF that(2), of ok P prev "c # cs"] that(1) out by simp
      have "\<not> (ok' prev \<and> (startswith (c # sub_path ok P (Some c) cs) (''/'' @ Q @ ''/'')
               \<or> startswith (c # sub_path ok P (Some c) cs) (Q @ ''/'')))"
        using nm pb[of "''/'' @ Q @ ''/''"] pb[of "Q @ ''/''"] nodot by auto
      with t out show ?thesis by simp
    qed
  qed
qed

lemma matchfree_sub_path_own:
  assumes nodot: "CHR ''.'' \<notin> set P0"
  shows "P = P0 \<Longrightarrow> \<forall>c\<in>set (''.specforge/'' @ P @ ''/''). \<not> ok (Some c) \<Longrightarrow>
         matchfree ok P prev (sub_path ok P prev s)"
proof (induction ok P prev s rule: sub_path.induct)
  case (1 ok P prev)
  show ?case by simp
next
  case (2 ok P prev c cs)
  note PP = "2.prems"(1) and inert = "2.prems"(2)
  from nodot PP have nd: "CHR ''.'' \<notin> set P" by simp
  let ?p1 = "''/'' @ P @ ''/''" and ?p2 = "P @ ''/''"
  show ?case
  proof (cases "ok prev \<and> startswith (c # cs) ?p1")
    case True
    with "2.IH"(1) PP inert
    have "matchfree ok P (Some (CHR ''/'')) (sub_path ok P (Some (CHR ''/'')) (drop (length P + 2) (c # cs)))"
      by simp
    note ih = this
    have o: "sub_path ok P prev (c # cs) = ''.specforge/'' @ P @ ''/'' @ sub_path ok P (Some (CHR ''/'')) (drop (length P + 2) (c # cs))"
      using True by simp
    show ?thesis by (subst o) (rule matchfree_inserted[OF inert nd ih])
  next
    case F1: False
    show ?thesis
    proof (cases "ok prev \<and> startswith (c # cs) ?p2")
      case True
      with "2.IH"(2) F1 PP inert
      have "matchfree ok P (Some (CHR ''/'')) (sub_path ok P (Some (CHR ''/'')) (drop (length P + 1) (c # cs)))"
        by simp
      note ih = this
      have o: "sub_path ok P prev (c # cs) = ''.specforge/'' @ P @ ''/'' @ sub_path ok P (Some (CHR ''/'')) (drop (length P + 1) (c # cs))"
        using True F1 by auto
      show ?thesis by (subst o) (rule matchfree_inserted[OF inert nd ih])
    next
      case F2: False
      from F1 F2 have out: "sub_path ok P prev (c # cs) = c # sub_path ok P (Some c) cs" by auto
      from "2.IH"(3) F1 F2 PP inert have t: "matchfree ok P (Some c) (sub_path ok P (Some c) cs)"
        by simp
      have pb: "startswith (c # cs) pat" if "startswith (c # sub_path ok P (Some c) cs) pat"
        "CHR ''.'' \<notin> set pat" for pat
        using startswith_sub_path[OF that(2), of ok P prev "c # cs"] that(1) out by simp
      have "\<not> (ok prev \<and> (startswith (c # sub_path ok P (Some c) cs) ?p1
               \<or> startswith (c # sub_path ok P (Some c) cs) ?p2))"
        using F1 F2 pb[of ?p1] pb[of ?p2] nd by auto
      with t out show ?thesis by simp
    qed
  qed
qed

lemma inert_roots:
  assumes "P \<in> set [''memory'', ''scripts'', ''templates'']"
  shows "\<forall>c\<in>set (''.specforge/'' @ P @ ''/''). \<not> at_line_start (Some c)"
    and "\<forall>c\<in>set (''.specforge/'' @ P @ ''/''). \<not> after_delimiter (Some c)"
    and "CHR ''.'' \<notin> set P"
  using assms by (auto simp: at_line_start_def after_delimiter_def py_isspace_def)

lemma rewrite_path_own:
  assumes P: "P \<in> set [''memory'', ''scripts'', ''templates'']"
  shows "matchfree at_line_start P None (rewrite_path P s)"
    and "matchfree after_delimiter P None (rewrite_path P s)"
proof -
  note i = inert_roots[OF P]
  have "matchfree at_line_start P None (sub_path at_line_start P None s)"
    by (rule matchfree_sub_path_own[OF i(3) refl i(1)])
  then show "matchfree at_line_start P None (rewrite_path P s)"
    unfolding rewrite_path_def by (rule matchfree_sub_path_keep[OF i(3) i(1)])
  show "matchfree after_delimiter P None (rewrite_path P s)"
    unfolding rewrite_path_def by (rule matchfree_sub_path_own[OF i(3) refl i(2)])
qed

lemma rewrite_path_keep:
  assumes P: "P \<in> set [''memory'', ''scripts'', ''templates'']"
    and Q: "Q \<in> set [''memory'', ''scripts'', ''templates'']"
  shows "matchfree at_line_start Q None s \<Longrightarrow> matchfree at_line_start Q None (rewrite_path P s)"
    and "matchfree after_delimiter Q None s \<Longrightarrow> matchfree after_delimiter Q None (rewrite_path P s)"
proof -
  note i = inert_roots[OF P] and j = inert_roots[OF Q]
  show "matchfree at_line_start Q None s \<Longrightarrow> matchfree at_line_start Q None (rewrite_path P s)"
    unfolding rewrite_path_def
    by (intro matchfree_sub_path_keep[OF j(3) i(1)])
  show "matchfree after_delimiter Q None s \<Longrightarrow> matchfree after_delimiter Q None (rewrite_path P s)"
    unfolding rewrite_path_def
    by (intro matchfree_sub_path_keep[OF j(3) i(2)])
qed

lemma rewrite_path_fixed:
  "matchfree at_line_start P None s \<Longrightarrow> matchfree after_delimiter P None s \<Longrightarrow>
     rewrite_path P s = s"
  by (simp add: rewrite_path_def sub_path_matchfree)

lemma rewrite_settles: "no_bare_reference (rewrite_paths_for_bundled s)"
proof -
  let ?m = "''memory''" and ?s = "''scripts''" and ?t = "''templates''"
  have M: "?m \<in> set [?m, ?s, ?t]" and S: "?s \<in> set [?m, ?s, ?t]" and T: "?t \<in> set [?m, ?s, ?t]"
    by simp_all
  let ?s1 = "rewrite_path ?m s"
  let ?s2 = "rewrite_path ?s ?s1"
  let ?s3 = "rewrite_path ?t ?s2"
  have eq: "rewrite_paths_for_bundled s = ?s3" by (simp add: rewrite_paths_for_bundled_def)
  note m1 = rewrite_path_own[OF M, of s]
  note m2 = rewrite_path_keep(1)[OF S M, of ?s1, OF m1(1)] rewrite_path_keep(2)[OF S M, of ?s1, OF m1(2)]
  note m3 = rewrite_path_keep(1)[OF T M, of ?s2, OF m2(1)] rewrite_path_keep(2)[OF T M, of ?s2, OF m2(2)]
  note s2 = rewrite_path_own[OF S, of ?s1]
  note s3 = rewrite_path_keep(1)[OF T S, of ?s2, OF s2(1)] rewrite_path_keep(2)[OF T S, of ?s2, OF s2(2)]
  note t3 = rewrite_path_own[OF T, of ?s2]
  show ?thesis unfolding eq no_bare_reference_def using m3 s3 t3 by simp
qed

lemma rewrite_fixed: "no_bare_reference s \<Longrightarrow> rewrite_paths_for_bundled s = s"
  by (simp add: no_bare_reference_def rewrite_paths_for_bundled_def rewrite_path_fixed)

lemma rewrite_idem: "rewrite_paths_for_bundled (rewrite_paths_for_bundled s) = rewrite_paths_for_bundled s"
  by (rule rewrite_fixed[OF rewrite_settles])

lemma startswith_length: "startswith xs pat \<Longrightarrow> length pat \<le> length xs"
  by (induction xs pat rule: startswith.induct) auto

lemma startswith_barrier: "d \<notin> set pat \<Longrightarrow> startswith (x @ d # t) pat = startswith x pat"
proof (induction pat arbitrary: x)
  case Nil
  show ?case by simp
next
  case (Cons p ps)
  then show ?case by (cases x) auto
qed

lemma sub_path_barrier:
  "d \<noteq> CHR ''/'' \<Longrightarrow> d \<notin> set P \<Longrightarrow>
   sub_path ok P prev (a @ d # t) = sub_path ok P prev a @ d # sub_path ok P (Some d) t"
proof (induction ok P prev a rule: sub_path.induct)
  case (1 ok P prev)
  have "\<not> startswith (d # t) (''/'' @ P @ ''/'')" using 1 by simp
  moreover have "\<not> startswith (d # t) (P @ ''/'')" using 1 by (cases P) auto
  ultimately show ?case by simp
next
  case (2 ok P prev c cs)
  note d = "2.prems"
  let ?p1 = "''/'' @ P @ ''/''" and ?p2 = "P @ ''/''"
  have n1: "d \<notin> set ?p1" and n2: "d \<notin> set ?p2" using d by auto
  have sw1: "startswith ((c # cs) @ d # t) ?p1 = startswith (c # cs) ?p1"
    by (rule startswith_barrier[OF n1])
  have sw2: "startswith ((c # cs) @ d # t) ?p2 = startswith (c # cs) ?p2"
    by (rule startswith_barrier[OF n2])
  show ?case
  proof (cases "ok prev \<and> startswith (c # cs) ?p1")
    case True
    then have "length ?p1 \<le> length (c # cs)" using startswith_length by blast
    then have dr: "drop (length P + 2) ((c # cs) @ d # t) = drop (length P + 2) (c # cs) @ d # t"
      by simp
    have l: "sub_path ok P prev ((c # cs) @ d # t)
          = ''.specforge/'' @ P @ ''/'' @ sub_path ok P (Some (CHR ''/'')) (drop (length P + 2) ((c # cs) @ d # t))"
      using True sw1 by simp
    have r: "sub_path ok P prev (c # cs)
          = ''.specforge/'' @ P @ ''/'' @ sub_path ok P (Some (CHR ''/'')) (drop (length P + 2) (c # cs))"
      using True by simp
    from "2.IH"(1) True d
    have "sub_path ok P (Some (CHR ''/'')) (drop (length P + 2) (c # cs) @ d # t)
          = sub_path ok P (Some (CHR ''/'')) (drop (length P + 2) (c # cs)) @ d # sub_path ok P (Some d) t"
      by simp
    then show ?thesis unfolding l r dr by simp
  next
    case F1: False
    show ?thesis
    proof (cases "ok prev \<and> startswith (c # cs) ?p2")
      case True
      then have "length ?p2 \<le> length (c # cs)" using startswith_length by blast
      then have dr: "drop (length P + 1) ((c # cs) @ d # t) = drop (length P + 1) (c # cs) @ d # t"
        by simp
      have l: "sub_path ok P prev ((c # cs) @ d # t)
            = ''.specforge/'' @ P @ ''/'' @ sub_path ok P (Some (CHR ''/'')) (drop (length P + 1) ((c # cs) @ d # t))"
        using True F1 sw1 sw2 by auto
      have r: "sub_path ok P prev (c # cs)
            = ''.specforge/'' @ P @ ''/'' @ sub_path ok P (Some (CHR ''/'')) (drop (length P + 1) (c # cs))"
        using True F1 by auto
      from "2.IH"(2) True F1 d
      have "sub_path ok P (Some (CHR ''/'')) (drop (length P + 1) (c # cs) @ d # t)
            = sub_path ok P (Some (CHR ''/'')) (drop (length P + 1) (c # cs)) @ d # sub_path ok P (Some d) t"
        by simp
      then show ?thesis unfolding l r dr by simp
    next
      case F2: False
      have l: "sub_path ok P prev ((c # cs) @ d # t) = c # sub_path ok P (Some c) (cs @ d # t)"
        using F1 F2 sw1 sw2 by auto
      have r: "sub_path ok P prev (c # cs) = c # sub_path ok P (Some c) cs"
        using F1 F2 by auto
      from "2.IH"(3) F1 F2 d
      have "sub_path ok P (Some c) (cs @ d # t) = sub_path ok P (Some c) cs @ d # sub_path ok P (Some d) t"
        by simp
      then show ?thesis unfolding l r by simp
    qed
  qed
qed

lemma sub_path_inert:
  "\<forall>c\<in>set pre. \<not> ok (Some c) \<Longrightarrow> pre \<noteq> [] \<Longrightarrow>
     sub_path ok Q (Some (hd pre)) (tl pre @ rest) = tl pre @ sub_path ok Q (Some (last pre)) rest"
proof (induction pre)
  case Nil
  then show ?case by simp
next
  case (Cons x xs)
  show ?case
  proof (cases xs)
    case Nil
    then show ?thesis by simp
  next
    case (Cons y ys)
    with Cons.IH Cons.prems show ?thesis by simp
  qed
qed

lemma sub_path_namespaced:
  assumes inert: "\<forall>c\<in>set (''.specforge/'' @ P @ ''/''). \<not> ok (Some c)"
    and nodot: "CHR ''.'' \<notin> set Q"
  shows "sub_path ok Q prev (a @ ''.specforge/'' @ P @ ''/'' @ rest)
           = sub_path ok Q prev a @ ''.specforge/'' @ P @ ''/'' @ sub_path ok Q (Some (CHR ''/'')) rest"
proof -
  let ?pre = "''.specforge/'' @ P @ ''/''"
  have "sub_path ok Q (Some (hd ?pre)) (tl ?pre @ rest) = tl ?pre @ sub_path ok Q (Some (last ?pre)) rest"
    by (rule sub_path_inert[OF inert]) simp
  then have i: "sub_path ok Q (Some (CHR ''.'')) (''specforge/'' @ P @ ''/'' @ rest)
                 = ''specforge/'' @ P @ ''/'' @ sub_path ok Q (Some (CHR ''/'')) rest" by simp
  have "sub_path ok Q prev (a @ CHR ''.'' # (''specforge/'' @ P @ ''/'' @ rest))
          = sub_path ok Q prev a @ CHR ''.'' # sub_path ok Q (Some (CHR ''.'')) (''specforge/'' @ P @ ''/'' @ rest)"
    by (rule sub_path_barrier) (use nodot in simp_all)
  then show ?thesis unfolding i by simp
qed

lemma rewrite_paths_from_None: "rewrite_paths_for_bundled s = rewrite_paths_from None s"
  by (simp add: rewrite_paths_for_bundled_def rewrite_paths_from_def rewrite_path_def)

lemma rewrite_paths_from_unfold:
  "rewrite_paths_from prev s =
     sub_path after_delimiter ''templates'' prev (sub_path at_line_start ''templates'' prev
       (sub_path after_delimiter ''scripts'' prev (sub_path at_line_start ''scripts'' prev
         (sub_path after_delimiter ''memory'' prev (sub_path at_line_start ''memory'' prev s)))))"
  by (simp add: rewrite_paths_from_def)

lemma sub_path_Nil: "sub_path ok Q prev [] = []"
  by simp

lemma rewrite_paths_from_namespaced:
  assumes P: "P \<in> set [''memory'', ''scripts'', ''templates'']"
  shows "rewrite_paths_from prev (a @ ''.specforge/'' @ P @ ''/'' @ rest)
           = rewrite_paths_from prev a @ ''.specforge/'' @ P @ ''/'' @ rewrite_paths_from (Some (CHR ''/'')) rest"
proof -
  note i = inert_roots[OF P]
  have n: "CHR ''.'' \<notin> set ''memory''" "CHR ''.'' \<notin> set ''scripts''" "CHR ''.'' \<notin> set ''templates''"
    by simp_all
  note r = sub_path_namespaced[OF i(1) n(1)] sub_path_namespaced[OF i(2) n(1)]
    sub_path_namespaced[OF i(1) n(2)] sub_path_namespaced[OF i(2) n(2)]
    sub_path_namespaced[OF i(1) n(3)] sub_path_namespaced[OF i(2) n(3)]
  show ?thesis unfolding rewrite_paths_from_unfold by (simp only: r)
qed

lemma delimiter_barrier:
  assumes "after_delimiter (Some d)"
  shows "d \<noteq> CHR ''/''" "d \<notin> set ''memory''" "d \<notin> set ''scripts''" "d \<notin> set ''templates''"
  using assms by (auto simp: after_delimiter_def py_isspace_def)

lemma rewrite_paths_from_barrier:
  assumes "after_delimiter (Some d)"
  shows "rewrite_paths_from prev (a @ d # t)
           = rewrite_paths_from prev a @ d # rewrite_paths_from (Some d) t"
proof -
  note b = delimiter_barrier[OF assms]
  note r = sub_path_barrier[OF b(1) b(2)] sub_path_barrier[OF b(1) b(3)] sub_path_barrier[OF b(1) b(4)]
  show ?thesis unfolding rewrite_paths_from_unfold by (simp only: r)
qed

lemma anchors_Some:
  "at_line_start (Some c) = (c = NL)"
  "after_delimiter (Some c) = (py_isspace c \<or> c = CHR 0x60 \<or> c = CHR 0x22 \<or> c = CHR 0x27)"
  by (simp_all add: at_line_start_def after_delimiter_def)

lemma three_pairs:
  "P \<in> set [m, s, t] \<Longrightarrow> Q \<in> set [m, s, t] \<Longrightarrow> P \<noteq> Q \<Longrightarrow>
     (P = m \<and> Q = s) \<or> (P = m \<and> Q = t) \<or> (P = s \<and> Q = m) \<or> (P = s \<and> Q = t)
     \<or> (P = t \<and> Q = m) \<or> (P = t \<and> Q = s)"
  by auto

lemma pass_other:
  assumes ok: "ok = at_line_start \<or> ok = after_delimiter"
    and "P \<in> set [''memory'', ''scripts'', ''templates'']"
    and "Q \<in> set [''memory'', ''scripts'', ''templates'']" and "P \<noteq> Q"
  shows "sub_path ok Q prev (P @ ''/'' @ rest) = P @ ''/'' @ sub_path ok Q (Some (CHR ''/'')) rest"
    and "sub_path ok Q prev (''/'' @ P @ ''/'' @ rest)
           = ''/'' @ P @ ''/'' @ sub_path ok Q (Some (CHR ''/'')) rest"
proof -
  from three_pairs[OF assms(2-4)] consider
      (ms) "P = ''memory''" "Q = ''scripts''" | (mt) "P = ''memory''" "Q = ''templates''"
    | (sm) "P = ''scripts''" "Q = ''memory''" | (st) "P = ''scripts''" "Q = ''templates''"
    | (tm) "P = ''templates''" "Q = ''memory''" | (ts) "P = ''templates''" "Q = ''scripts''"
    by (elim disjE conjE)
  then have "sub_path ok Q prev (P @ ''/'' @ rest) = P @ ''/'' @ sub_path ok Q (Some (CHR ''/'')) rest
     \<and> sub_path ok Q prev (''/'' @ P @ ''/'' @ rest)
           = ''/'' @ P @ ''/'' @ sub_path ok Q (Some (CHR ''/'')) rest"
  proof cases
    case ms
    show ?thesis using ok unfolding ms by (elim disjE; simp add: anchors_Some py_isspace_def)
  next
    case mt
    show ?thesis using ok unfolding mt by (elim disjE; simp add: anchors_Some py_isspace_def)
  next
    case sm
    show ?thesis using ok unfolding sm by (elim disjE; simp add: anchors_Some py_isspace_def)
  next
    case st
    show ?thesis using ok unfolding st by (elim disjE; simp add: anchors_Some py_isspace_def)
  next
    case tm
    show ?thesis using ok unfolding tm by (elim disjE; simp add: anchors_Some py_isspace_def)
  next
    case ts
    show ?thesis using ok unfolding ts by (elim disjE; simp add: anchors_Some py_isspace_def)
  qed
  then show "sub_path ok Q prev (P @ ''/'' @ rest) = P @ ''/'' @ sub_path ok Q (Some (CHR ''/'')) rest"
    and "sub_path ok Q prev (''/'' @ P @ ''/'' @ rest)
           = ''/'' @ P @ ''/'' @ sub_path ok Q (Some (CHR ''/'')) rest" by simp_all
qed

lemma stage_own:
  assumes P: "P \<in> set [''memory'', ''scripts'', ''templates'']"
    and ok: "at_line_start prev \<or> after_delimiter prev"
  shows "sub_path after_delimiter P prev (sub_path at_line_start P prev (P @ ''/'' @ rest))
           = ''.specforge/'' @ P @ ''/''
             @ sub_path after_delimiter P (Some (CHR ''/'')) (sub_path at_line_start P (Some (CHR ''/'')) rest)"
    and "sub_path after_delimiter P prev (sub_path at_line_start P prev (''/'' @ P @ ''/'' @ rest))
           = ''.specforge/'' @ P @ ''/''
             @ sub_path after_delimiter P (Some (CHR ''/'')) (sub_path at_line_start P (Some (CHR ''/'')) rest)"
proof -
  note i = inert_roots[OF P]
  note ns = sub_path_namespaced[OF i(2) i(3), of prev "[]", unfolded sub_path_Nil append_Nil]
  have a: "sub_path after_delimiter P prev (sub_path at_line_start P prev (P @ ''/'' @ rest))
           = ''.specforge/'' @ P @ ''/''
             @ sub_path after_delimiter P (Some (CHR ''/'')) (sub_path at_line_start P (Some (CHR ''/'')) rest)"
  proof (cases "at_line_start prev")
    case True
    have "sub_path at_line_start P prev (P @ ''/'' @ rest)
           = ''.specforge/'' @ P @ ''/'' @ sub_path at_line_start P (Some (CHR ''/'')) rest"
      using P True by auto
    then show ?thesis by (simp only: ns)
  next
    case False
    with ok have ad: "after_delimiter prev" by simp
    have "sub_path at_line_start P prev (P @ ''/'' @ rest)
           = P @ ''/'' @ sub_path at_line_start P (Some (CHR ''/'')) rest"
      using P False by (auto simp: anchors_Some)
    moreover have "sub_path after_delimiter P prev (P @ ''/'' @ t)
           = ''.specforge/'' @ P @ ''/'' @ sub_path after_delimiter P (Some (CHR ''/'')) t" for t
      using P ad by (auto simp: anchors_Some py_isspace_def)
    ultimately show ?thesis by simp
  qed
  have b: "sub_path after_delimiter P prev (sub_path at_line_start P prev (''/'' @ P @ ''/'' @ rest))
           = ''.specforge/'' @ P @ ''/''
             @ sub_path after_delimiter P (Some (CHR ''/'')) (sub_path at_line_start P (Some (CHR ''/'')) rest)"
  proof (cases "at_line_start prev")
    case True
    have "sub_path at_line_start P prev (''/'' @ P @ ''/'' @ rest)
           = ''.specforge/'' @ P @ ''/'' @ sub_path at_line_start P (Some (CHR ''/'')) rest"
      using P True by auto
    then show ?thesis by (simp only: ns)
  next
    case False
    with ok have ad: "after_delimiter prev" by simp
    have "sub_path at_line_start P prev (''/'' @ P @ ''/'' @ rest)
           = ''/'' @ P @ ''/'' @ sub_path at_line_start P (Some (CHR ''/'')) rest"
      using P False by (auto simp: anchors_Some)
    moreover have "sub_path after_delimiter P prev (''/'' @ P @ ''/'' @ t)
           = ''.specforge/'' @ P @ ''/'' @ sub_path after_delimiter P (Some (CHR ''/'')) t" for t
      using P ad by (auto simp: anchors_Some py_isspace_def)
    ultimately show ?thesis by simp
  qed
  from a show "sub_path after_delimiter P prev (sub_path at_line_start P prev (P @ ''/'' @ rest))
           = ''.specforge/'' @ P @ ''/''
             @ sub_path after_delimiter P (Some (CHR ''/'')) (sub_path at_line_start P (Some (CHR ''/'')) rest)" .
  from b show "sub_path after_delimiter P prev (sub_path at_line_start P prev (''/'' @ P @ ''/'' @ rest))
           = ''.specforge/'' @ P @ ''/''
             @ sub_path after_delimiter P (Some (CHR ''/'')) (sub_path at_line_start P (Some (CHR ''/'')) rest)" .
qed

lemma rewrite_paths_from_reference:
  assumes P: "P \<in> set [''memory'', ''scripts'', ''templates'']"
    and ok: "at_line_start prev \<or> after_delimiter prev"
  shows "rewrite_paths_from prev (P @ ''/'' @ rest)
           = ''.specforge/'' @ P @ ''/'' @ rewrite_paths_from (Some (CHR ''/'')) rest"
    and "rewrite_paths_from prev (''/'' @ P @ ''/'' @ rest)
           = ''.specforge/'' @ P @ ''/'' @ rewrite_paths_from (Some (CHR ''/'')) rest"
proof -
  have M: "''memory'' \<in> set [''memory'', ''scripts'', ''templates'']"
    and S: "''scripts'' \<in> set [''memory'', ''scripts'', ''templates'']"
    and T: "''templates'' \<in> set [''memory'', ''scripts'', ''templates'']" by simp_all
  have n: "CHR ''.'' \<notin> set ''memory''" "CHR ''.'' \<notin> set ''scripts''" "CHR ''.'' \<notin> set ''templates''"
    by simp_all
  note i = inert_roots[OF P]
  note ns = sub_path_namespaced[OF i(1) n(1), of _ "[]", unfolded sub_path_Nil append_Nil]
    sub_path_namespaced[OF i(2) n(1), of _ "[]", unfolded sub_path_Nil append_Nil]
    sub_path_namespaced[OF i(1) n(2), of _ "[]", unfolded sub_path_Nil append_Nil]
    sub_path_namespaced[OF i(2) n(2), of _ "[]", unfolded sub_path_Nil append_Nil]
    sub_path_namespaced[OF i(1) n(3), of _ "[]", unfolded sub_path_Nil append_Nil]
    sub_path_namespaced[OF i(2) n(3), of _ "[]", unfolded sub_path_Nil append_Nil]
  have a1: "at_line_start = at_line_start \<or> at_line_start = after_delimiter"
    and a2: "after_delimiter = at_line_start \<or> after_delimiter = after_delimiter" by simp_all
  from P consider "P = ''memory''" | "P = ''scripts''" | "P = ''templates''" by auto
  then have "rewrite_paths_from prev (P @ ''/'' @ rest)
           = ''.specforge/'' @ P @ ''/'' @ rewrite_paths_from (Some (CHR ''/'')) rest
      \<and> rewrite_paths_from prev (''/'' @ P @ ''/'' @ rest)
           = ''.specforge/'' @ P @ ''/'' @ rewrite_paths_from (Some (CHR ''/'')) rest"
  proof cases
    case 1
    note so = stage_own[OF M ok]
    show ?thesis using ns unfolding 1 rewrite_paths_from_unfold by (simp only: so) 
  next
    case 2
    note so = stage_own[OF S ok]
    have ne: "''scripts'' \<noteq> ''memory''" by simp
    note po = pass_other[OF a1 S M ne] pass_other[OF a2 S M ne]
    show ?thesis using ns unfolding 2 rewrite_paths_from_unfold by (simp only: po so)
  next
    case 3
    note so = stage_own[OF T ok]
    have ne: "''templates'' \<noteq> ''memory''" "''templates'' \<noteq> ''scripts''" by simp_all
    note po = pass_other[OF a1 T M ne(1)] pass_other[OF a2 T M ne(1)]
      pass_other[OF a1 T S ne(2)] pass_other[OF a2 T S ne(2)]
    show ?thesis using ns unfolding 3 rewrite_paths_from_unfold by (simp only: po so)
  qed
  then show "rewrite_paths_from prev (P @ ''/'' @ rest)
           = ''.specforge/'' @ P @ ''/'' @ rewrite_paths_from (Some (CHR ''/'')) rest"
    and "rewrite_paths_from prev (''/'' @ P @ ''/'' @ rest)
           = ''.specforge/'' @ P @ ''/'' @ rewrite_paths_from (Some (CHR ''/'')) rest" by simp_all
qed

text \<open>
  Claim C9. Rewriting twice gives what rewriting once gives. The result holds no reference
  to \<open>memory/\<close>, \<open>scripts/\<close> or \<open>templates/\<close>, with or without a leading slash, at the
  start of a line or right after whitespace, a backtick or a quote, and a text holding none
  is left as it is. A reference already under \<open>.specforge/\<close> is kept wherever it stands, the
  text before it and the text behind it being rewritten on their own; a reference at the
  start of the text, or right after a delimiter, is moved under \<open>.specforge/\<close>.
\<close>
theorem rewrite_paths_idempotent:
  "rewrite_paths_for_bundled (rewrite_paths_for_bundled s) = rewrite_paths_for_bundled s
   \<and> no_bare_reference (rewrite_paths_for_bundled s)
   \<and> (no_bare_reference s \<longrightarrow> rewrite_paths_for_bundled s = s)
   \<and> (\<forall>P\<in>set [''memory'', ''scripts'', ''templates'']. \<forall>a rest.
         rewrite_paths_for_bundled (a @ ''.specforge/'' @ P @ ''/'' @ rest)
           = rewrite_paths_for_bundled a @ ''.specforge/'' @ P @ ''/''
               @ rewrite_paths_from (Some (CHR ''/'')) rest
       \<and> rewrite_paths_for_bundled (P @ ''/'' @ rest)
           = ''.specforge/'' @ P @ ''/'' @ rewrite_paths_from (Some (CHR ''/'')) rest
       \<and> rewrite_paths_for_bundled (''/'' @ P @ ''/'' @ rest)
           = ''.specforge/'' @ P @ ''/'' @ rewrite_paths_from (Some (CHR ''/'')) rest
       \<and> (\<forall>d. after_delimiter (Some d) \<longrightarrow>
             rewrite_paths_for_bundled (a @ d # P @ ''/'' @ rest)
               = rewrite_paths_for_bundled a @ d # ''.specforge/'' @ P @ ''/''
                   @ rewrite_paths_from (Some (CHR ''/'')) rest
           \<and> rewrite_paths_for_bundled (a @ d # ''/'' @ P @ ''/'' @ rest)
               = rewrite_paths_for_bundled a @ d # ''.specforge/'' @ P @ ''/''
                   @ rewrite_paths_from (Some (CHR ''/'')) rest))"
proof (intro conjI ballI allI impI)
  show "rewrite_paths_for_bundled (rewrite_paths_for_bundled s) = rewrite_paths_for_bundled s"
    by (rule rewrite_idem)
  show "no_bare_reference (rewrite_paths_for_bundled s)" by (rule rewrite_settles)
  show "rewrite_paths_for_bundled s = s" if "no_bare_reference s"
    using that by (rule rewrite_fixed)
next
  fix P a rest assume P: "P \<in> set [''memory'', ''scripts'', ''templates'']"
  have start: "at_line_start None \<or> after_delimiter None" by (simp add: at_line_start_def)
  show "rewrite_paths_for_bundled (a @ ''.specforge/'' @ P @ ''/'' @ rest)
           = rewrite_paths_for_bundled a @ ''.specforge/'' @ P @ ''/''
               @ rewrite_paths_from (Some (CHR ''/'')) rest"
    unfolding rewrite_paths_from_None by (rule rewrite_paths_from_namespaced[OF P])
  show "rewrite_paths_for_bundled (P @ ''/'' @ rest)
           = ''.specforge/'' @ P @ ''/'' @ rewrite_paths_from (Some (CHR ''/'')) rest"
    unfolding rewrite_paths_from_None by (rule rewrite_paths_from_reference(1)[OF P start])
  show "rewrite_paths_for_bundled (''/'' @ P @ ''/'' @ rest)
           = ''.specforge/'' @ P @ ''/'' @ rewrite_paths_from (Some (CHR ''/'')) rest"
    unfolding rewrite_paths_from_None by (rule rewrite_paths_from_reference(2)[OF P start])
  fix d assume d: "after_delimiter (Some d)"
  then have dd: "at_line_start (Some d) \<or> after_delimiter (Some d)" by simp
  show "rewrite_paths_for_bundled (a @ d # P @ ''/'' @ rest)
               = rewrite_paths_for_bundled a @ d # ''.specforge/'' @ P @ ''/''
                   @ rewrite_paths_from (Some (CHR ''/'')) rest"
    unfolding rewrite_paths_from_None rewrite_paths_from_barrier[OF d]
      rewrite_paths_from_reference(1)[OF P dd] by (rule refl)
  show "rewrite_paths_for_bundled (a @ d # ''/'' @ P @ ''/'' @ rest)
               = rewrite_paths_for_bundled a @ d # ''.specforge/'' @ P @ ''/''
                   @ rewrite_paths_from (Some (CHR ''/'')) rest"
    unfolding rewrite_paths_from_None rewrite_paths_from_barrier[OF d]
      rewrite_paths_from_reference(2)[OF P dd] by (rule refl)
qed

theorem rewrite_paths_idempotent_witness:
  "no_bare_reference ''x/memory/d'' \<and> rewrite_paths_for_bundled ''x/memory/d'' = ''x/memory/d''
   \<and> after_delimiter (Some (CHR '' ''))
   \<and> rewrite_paths_for_bundled (''see'' @ CHR '' '' # ''scripts'' @ ''/'' @ ''x.sh'')
        = ''see .specforge/scripts/x.sh''
   \<and> rewrite_paths_for_bundled (''in '' @ ''.specforge/'' @ ''memory'' @ ''/'' @ ''c.md'')
        = ''in .specforge/memory/c.md''
   \<and> rewrite_paths_for_bundled (rewrite_paths_for_bundled ''/templates/t and memory/'')
        = ''.specforge/templates/t and .specforge/memory/''"
proof -
  note T = rewrite_paths_idempotent
  have n: "no_bare_reference ''x/memory/d''"
    by (simp add: no_bare_reference_def at_line_start_def after_delimiter_def py_isspace_def)
  from T[of "''x/memory/d''"] n have a: "rewrite_paths_for_bundled ''x/memory/d'' = ''x/memory/d''"
    by blast
  have d: "after_delimiter (Some (CHR '' ''))" by (simp add: after_delimiter_def py_isspace_def)
  have S: "''scripts'' \<in> set [''memory'', ''scripts'', ''templates'']"
    and M: "''memory'' \<in> set [''memory'', ''scripts'', ''templates'']" by simp_all
  have e: "rewrite_paths_from (Some (CHR ''/'')) ''x.sh'' = ''x.sh''"
    "rewrite_paths_from (Some (CHR ''/'')) ''c.md'' = ''c.md''"
    "rewrite_paths_for_bundled ''see'' = ''see''" "rewrite_paths_for_bundled ''in '' = ''in ''"
    by (simp_all add: rewrite_paths_from_def rewrite_paths_for_bundled_def rewrite_path_def
        at_line_start_def after_delimiter_def py_isspace_def)
  from T[of "[]", THEN conjunct2, THEN conjunct2, THEN conjunct2, THEN bspec, OF S,
      THEN spec, THEN spec, THEN conjunct2, THEN conjunct2, THEN conjunct2, THEN spec, THEN mp, OF d,
      THEN conjunct1, of "''see''" "''x.sh''"] e
  have b: "rewrite_paths_for_bundled (''see'' @ CHR '' '' # ''scripts'' @ ''/'' @ ''x.sh'')
        = ''see .specforge/scripts/x.sh''" by simp
  from T[of "[]", THEN conjunct2, THEN conjunct2, THEN conjunct2, THEN bspec, OF M,
      THEN spec, THEN spec, THEN conjunct1, of "''in ''" "''c.md''"] e
  have c: "rewrite_paths_for_bundled (''in '' @ ''.specforge/'' @ ''memory'' @ ''/'' @ ''c.md'')
        = ''in .specforge/memory/c.md''" by simp
  have v: "rewrite_paths_for_bundled ''/templates/t and memory/''
        = ''.specforge/templates/t and .specforge/memory/''"
    by (simp add: rewrite_paths_for_bundled_def rewrite_path_def
        at_line_start_def after_delimiter_def py_isspace_def)
  from T[of "''/templates/t and memory/''"] v
  have i: "rewrite_paths_for_bundled (rewrite_paths_for_bundled ''/templates/t and memory/'')
        = ''.specforge/templates/t and .specforge/memory/''" by simp
  from n a d b c i show ?thesis by (intro conjI)
qed

section \<open>Properties of the Template Renderer\<close>



end
